theory Spec2Isabelle
  imports Complex_Main "HOL-Library.Word" "HOL-Library.Monad_Syntax"
begin

unbundle bit_operations_syntax

section \<open>Packet debug middleware (PacketDebug.h)\<close>

text \<open>
  A shallow embedding of class \<open>CPacketDebug\<close>.  A buffer is the byte list the pointer
  \<open>data\<close> designates together with the \<open>int size\<close> the caller passes.  Every read of
  the source goes through \<open>rd\<close>, which yields \<open>None\<close> when the index is outside
  \<open>[0, size)\<close>; the functions below are written in the option monad, so that \<open>None\<close>
  as a result means that the C++ code would have read outside the supplied length.

  The target is 32-bit little-endian Windows: \<open>BYTE\<close> is 8 bit, \<open>WORD\<close> 16 bit,
  \<open>DWORD\<close> and \<open>long\<close> 32 bit.  Offsets (\<open>int pos\<close>) never exceed 3 + 16 * 256 inside
  the scan (lemma \<open>scan_loop_offset_bound\<close>), so they are modelled as unbounded
  integers.  The counters and the tick count are \<open>DWORD\<close>s and wrap around.
\<close>

subsection \<open>Configuration\<close>

type_synonym byte = "8 word"

definition PKT_DBG_MIN_STR_LEN :: nat where
  "PKT_DBG_MIN_STR_LEN = 3"

definition PKT_DBG_MAX_FIELDS :: nat where
  "PKT_DBG_MAX_FIELDS = 16"

subsection \<open>Reading the buffer\<close>

definition rd :: "byte list \<Rightarrow> int \<Rightarrow> int \<Rightarrow> byte option" where
  "rd data size' i = (if 0 \<le> i \<and> i < size' then Some (data ! nat i) else None)"

text \<open>\<open>*(WORD* )(data + i)\<close>: two bytes, little-endian.\<close>

definition le16 :: "byte \<Rightarrow> byte \<Rightarrow> 16 word" where
  "le16 b0 b1 = word_of_nat (unat b0 + 256 * unat b1)"

definition rd16 :: "byte list \<Rightarrow> int \<Rightarrow> int \<Rightarrow> 16 word option" where
  "rd16 data size' i =
     do { b0 \<leftarrow> rd data size' i; b1 \<leftarrow> rd data size' (i + 1); Some (le16 b0 b1) }"

text \<open>\<open>*(DWORD* )(data + i)\<close>, \<open>*(long* )(data + i)\<close>, \<open>*(float* )(data + i)\<close>: four bytes,
  little-endian; the three views differ only in how the 32 bits are read.\<close>

definition le32 :: "byte \<Rightarrow> byte \<Rightarrow> byte \<Rightarrow> byte \<Rightarrow> 32 word" where
  "le32 b0 b1 b2 b3 =
     word_of_nat (unat b0 + 256 * unat b1 + 65536 * unat b2 + 16777216 * unat b3)"

definition rd32 :: "byte list \<Rightarrow> int \<Rightarrow> int \<Rightarrow> 32 word option" where
  "rd32 data size' i =
     do { b0 \<leftarrow> rd data size' i; b1 \<leftarrow> rd data size' (i + 1);
          b2 \<leftarrow> rd data size' (i + 2); b3 \<leftarrow> rd data size' (i + 3);
          Some (le32 b0 b1 b2 b3) }"

subsection \<open>Predicates on single values\<close>

definition IsPrintable :: "byte \<Rightarrow> bool" where
  "IsPrintable c \<longleftrightarrow> 32 \<le> unat c \<and> unat c < 127"

definition IsReasonableDWORD :: "32 word \<Rightarrow> bool" where
  "IsReasonableDWORD val =
     (if val = 0 \<or> val = 0xFFFFFFFF then False
      else if unat val > 0xF0000000 then False
      else True)"

text \<open>
  An IEEE-754 single-precision value, decoded from its bit pattern: sign bit 31,
  biased exponent in bits 30..23, fraction in bits 22..0.  Finite values are exact
  rationals (both zeros are \<open>Finite 0\<close>: the code only compares).
\<close>

datatype float32 = NaN | Infinity bool | Finite rat

definition float_of_bits :: "32 word \<Rightarrow> float32" where
  "float_of_bits w =
     (let neg = (unat w \<ge> 2 ^ 31);
          e = (unat w div 2 ^ 23) mod 256;
          m = unat w mod 2 ^ 23;
          sg = (if neg then - 1 else 1 :: rat)
      in if e = 255 then (if m = 0 then Infinity neg else NaN)
         else if e = 0 then Finite (sg * of_nat m / 2 ^ 149)
         else if e \<ge> 150 then Finite (sg * of_nat (2 ^ 23 + m) * 2 ^ (e - 150))
         else Finite (sg * of_nat (2 ^ 23 + m) / 2 ^ (150 - e)))"

text \<open>The float literals of \<open>IsReasonableFloat\<close>, as the values the compiler stores:
  \<open>1e10f\<close> = 0x501502F9 and \<open>100000.0f\<close> = 0x47C35000 are exact; \<open>0.0001f\<close> =
  0x38D1B717 is 13743895 * 2^-37, the single nearest to 1/10000 (and just below it).\<close>

definition f_1e10 :: rat where "f_1e10 = 10000000000"
definition f_0_0001 :: rat where "f_0_0001 = 13743895 / 2 ^ 37"
definition f_100000 :: rat where "f_100000 = 100000"

definition IsReasonableFloat :: "float32 \<Rightarrow> bool" where
  "IsReasonableFloat val =
     (case val of
        NaN \<Rightarrow> False
      | Infinity _ \<Rightarrow> False
      | Finite q \<Rightarrow>
          if q > f_1e10 \<or> q < - f_1e10 then False
          else if q = 0 then False
          else (let absVal = (if q < 0 then - q else q)
                in absVal \<ge> f_0_0001 \<and> absVal \<le> f_100000))"

subsection \<open>Output\<close>

text \<open>
  One constructor per \<open>fprintf\<close> of a field line, holding the arguments printed after
  the three-digit offset.  A string is the list of bytes appended to \<open>std::string s\<close>.
  Both string candidates print the label \<open>char[N]\<close>; the constructor records which
  of the two call sites printed it.
\<close>

datatype field =
    VarString int nat "byte list"
  | FixedString int int "byte list"
  | FloatField int "32 word"
  | LongField int int "32 word"
  | DwordField int "32 word"
  | ShortField int int "16 word"
  | WordField int "16 word"
  | ByteBoolField int byte
  | ByteField int byte

datatype out_line = Empty | HeaderOnly | Newline | FieldLine field | MoreBytes int

fun field_offset :: "field \<Rightarrow> int" where
  "field_offset (VarString off _ _) = off"
| "field_offset (FixedString off _ _) = off"
| "field_offset (FloatField off _) = off"
| "field_offset (LongField off _ _) = off"
| "field_offset (DwordField off _) = off"
| "field_offset (ShortField off _ _) = off"
| "field_offset (WordField off _) = off"
| "field_offset (ByteBoolField off _) = off"
| "field_offset (ByteField off _) = off"

subsection \<open>Variable (null-terminated) string candidate\<close>

text \<open>The loop of line 131: \<open>while (pos < size && data[pos] != 0 && IsPrintable(data[pos])
  && s.length() < 64) s += (char)data[pos++]\<close>.  It returns the new \<open>pos\<close> and \<open>s\<close>.\<close>

function str_run :: "byte list \<Rightarrow> int \<Rightarrow> int \<Rightarrow> byte list \<Rightarrow> (int \<times> byte list) option" where
  "str_run data size' pos s =
     (if pos < size' then
        (case rd data size' pos of
           None \<Rightarrow> None
         | Some c \<Rightarrow>
             if c \<noteq> 0 \<and> IsPrintable c \<and> length s < 64
             then str_run data size' (pos + 1) (s @ [c])
             else Some (pos, s))
      else Some (pos, s))"
  by pat_completeness auto
termination
  by (relation "measure (\<lambda>(data, size', pos, s). nat (size' - pos))") auto

text \<open>
  Lines 127 to 142.  The outer \<open>None\<close> is a read outside the buffer; \<open>Some None\<close> is the
  candidate rejected (\<open>pos = strStart\<close>, fall through); \<open>Some (Some (f, pos'))\<close> is the
  field printed and the offset after it.
\<close>

definition try_var_string :: "byte list \<Rightarrow> int \<Rightarrow> int \<Rightarrow> (field \<times> int) option option" where
  "try_var_string data size' pos =
     do { c \<leftarrow> rd data size' pos;
          if IsPrintable c then
            do { (p, s) \<leftarrow> str_run data size' pos [];
                 ok \<leftarrow> (if length s \<ge> PKT_DBG_MIN_STR_LEN
                        then (if p \<ge> size' then Some True
                              else do { z \<leftarrow> rd data size' p; Some (z = 0) })
                        else Some False);
                 if ok then
                   do { adv \<leftarrow> (if p < size'
                                 then do { z \<leftarrow> rd data size' p; Some (z = 0) }
                                 else Some False);
                        Some (Some (VarString pos (length s + 1) s, if adv then p + 1 else p)) }
                 else Some None }
          else Some None }"

subsection \<open>Fixed-size string candidate\<close>

definition sizes :: "int list" where
  "sizes = [13, 16, 17, 24, 25, 31, 32, 33, 48, 64, 65, 128, 256]"

text \<open>The counting loop of \<open>DetectFixedString\<close> for one \<open>sz\<close>; it returns \<open>valid\<close>,
  \<open>printable\<close> and \<open>nulls\<close>.\<close>

function count_region ::
  "byte list \<Rightarrow> int \<Rightarrow> int \<Rightarrow> int \<Rightarrow> int \<Rightarrow> int \<Rightarrow> (bool \<times> int \<times> int) option" where
  "count_region data maxLen sz i printable nulls =
     (if i < sz then
        (case rd data maxLen i of
           None \<Rightarrow> None
         | Some c \<Rightarrow>
             if IsPrintable c then count_region data maxLen sz (i + 1) (printable + 1) nulls
             else if c = 0 then count_region data maxLen sz (i + 1) printable (nulls + 1)
             else Some (False, printable, nulls))
      else Some (True, printable, nulls))"
  by pat_completeness auto
termination
  by (relation "measure (\<lambda>(data, maxLen, sz, i, printable, nulls). nat (sz - i))") auto

fun probe_sizes :: "byte list \<Rightarrow> int \<Rightarrow> int list \<Rightarrow> int option" where
  "probe_sizes data maxLen [] = Some 0"
| "probe_sizes data maxLen (sz # rest) =
     (if sz > maxLen then Some 0
      else
        (case count_region data maxLen sz 0 0 0 of
           None \<Rightarrow> None
         | Some (valid, printable, nulls) \<Rightarrow>
             if valid \<and> printable \<ge> int PKT_DBG_MIN_STR_LEN \<and> nulls > 0
                \<and> printable + nulls = sz
             then Some sz
             else probe_sizes data maxLen rest))"

definition DetectFixedString :: "byte list \<Rightarrow> int \<Rightarrow> int option" where
  "DetectFixedString data maxLen = probe_sizes data maxLen sizes"

text \<open>The loop of line 149: \<open>for (i = 0; i < fixedStrLen && data[pos + i] != 0; i++)
  s += (char)data[pos + i]\<close>.\<close>

function fixed_text ::
  "byte list \<Rightarrow> int \<Rightarrow> int \<Rightarrow> int \<Rightarrow> int \<Rightarrow> byte list \<Rightarrow> byte list option" where
  "fixed_text data size' pos fixedStrLen i s =
     (if i < fixedStrLen then
        (case rd data size' (pos + i) of
           None \<Rightarrow> None
         | Some c \<Rightarrow>
             if c \<noteq> 0 then fixed_text data size' pos fixedStrLen (i + 1) (s @ [c])
             else Some s)
      else Some s)"
  by pat_completeness auto
termination
  by (relation "measure (\<lambda>(data, size', pos, fixedStrLen, i, s). nat (fixedStrLen - i))") auto

text \<open>Lines 145 to 155; \<open>data + pos\<close> is the buffer from \<open>pos\<close> on.\<close>

definition try_fixed_string :: "byte list \<Rightarrow> int \<Rightarrow> int \<Rightarrow> (field \<times> int) option option" where
  "try_fixed_string data size' pos =
     do { fixedStrLen \<leftarrow> DetectFixedString (drop (nat pos) data) (size' - pos);
          if fixedStrLen > 0 then
            do { s \<leftarrow> fixed_text data size' pos fixedStrLen 0 [];
                 Some (Some (FixedString pos fixedStrLen s, pos + fixedStrLen)) }
          else Some None }"

subsection \<open>Numeric candidates and the byte fallback\<close>

definition try_float :: "byte list \<Rightarrow> int \<Rightarrow> int \<Rightarrow> (field \<times> int) option option" where
  "try_float data size' pos =
     (if pos + 4 \<le> size' then
        do { fval \<leftarrow> rd32 data size' pos;
             if IsReasonableFloat (float_of_bits fval)
             then Some (Some (FloatField pos fval, pos + 4))
             else Some None }
      else Some None)"

definition try_int32 :: "byte list \<Rightarrow> int \<Rightarrow> int \<Rightarrow> (field \<times> int) option option" where
  "try_int32 data size' pos =
     (if pos + 4 \<le> size' then
        do { uval \<leftarrow> rd32 data size' pos;
             let sval = sint uval in
             if sval < 0 \<and> sval > - 100000000
             then Some (Some (LongField pos sval uval, pos + 4))
             else if IsReasonableDWORD uval
             then Some (Some (DwordField pos uval, pos + 4))
             else Some None }
      else Some None)"

definition try_int16 :: "byte list \<Rightarrow> int \<Rightarrow> int \<Rightarrow> (field \<times> int) option option" where
  "try_int16 data size' pos =
     (if pos + 2 \<le> size' then
        do { uval \<leftarrow> rd16 data size' pos;
             let sval = sint uval in
             if sval < 0 \<and> sval > - 32000
             then Some (Some (ShortField pos sval uval, pos + 2))
             else if uint uval > 0 \<and> uint uval < 0xFFF0
             then Some (Some (WordField pos uval, pos + 2))
             else Some None }
      else Some None)"

definition byte_field :: "byte list \<Rightarrow> int \<Rightarrow> int \<Rightarrow> (field \<times> int) option" where
  "byte_field data size' pos =
     do { val \<leftarrow> rd data size' pos;
          Some (if val = 0 \<or> val = 1 then ByteBoolField pos val else ByteField pos val,
                pos + 1) }"

subsection \<open>The classification loop\<close>

text \<open>One iteration of the \<open>while\<close> of line 124: the candidates in the order of the
  source, each \<open>continue\<close> being a result; it returns the field and the new \<open>pos\<close>.\<close>

definition scan_step :: "byte list \<Rightarrow> int \<Rightarrow> int \<Rightarrow> (field \<times> int) option" where
  "scan_step data size' pos =
     (case try_var_string data size' pos of
        None \<Rightarrow> None
      | Some (Some r) \<Rightarrow> Some r
      | Some None \<Rightarrow>
     (case try_fixed_string data size' pos of
        None \<Rightarrow> None
      | Some (Some r) \<Rightarrow> Some r
      | Some None \<Rightarrow>
     (case try_float data size' pos of
        None \<Rightarrow> None
      | Some (Some r) \<Rightarrow> Some r
      | Some None \<Rightarrow>
     (case try_int32 data size' pos of
        None \<Rightarrow> None
      | Some (Some r) \<Rightarrow> Some r
      | Some None \<Rightarrow>
     (case try_int16 data size' pos of
        None \<Rightarrow> None
      | Some (Some r) \<Rightarrow> Some r
      | Some None \<Rightarrow> byte_field data size' pos)))))"

text \<open>The loop itself.  It returns the fields in order, each with the number of bytes
  it consumed, and the offset at which the loop stopped.\<close>

function scan_loop ::
  "byte list \<Rightarrow> int \<Rightarrow> int \<Rightarrow> nat \<Rightarrow> ((field \<times> int) list \<times> int) option" where
  "scan_loop data size' pos fieldCount =
     (if pos < size' \<and> fieldCount < PKT_DBG_MAX_FIELDS then
        (case scan_step data size' pos of
           None \<Rightarrow> None
         | Some (f, pos') \<Rightarrow>
             (case scan_loop data size' pos' (fieldCount + 1) of
                None \<Rightarrow> None
              | Some (fs, stop) \<Rightarrow> Some ((f, pos' - pos) # fs, stop)))
      else Some ([], pos))"
  by pat_completeness auto
termination
  by (relation "measure (\<lambda>(data, size', pos, fieldCount). PKT_DBG_MAX_FIELDS - fieldCount)") auto

text \<open>Lines 115 to 118: the offset at which scanning starts.\<close>

definition scan_start :: "byte list \<Rightarrow> int \<Rightarrow> int option" where
  "scan_start data size' =
     (if size' \<ge> 3 then
        do { w \<leftarrow> rd16 data size' 1; Some (if uint w = size' then 3 else 1) }
      else Some 1)"

definition PrintContent :: "byte list \<Rightarrow> int \<Rightarrow> out_line list option" where
  "PrintContent data size' =
     (if size' \<le> 1 then Some [Empty]
      else
        do { pos \<leftarrow> scan_start data size';
             if pos \<ge> size' then Some [HeaderOnly]
             else
               do { (fs, stop) \<leftarrow> scan_loop data size' pos 0;
                    Some (Newline # map (FieldLine \<circ> fst) fs
                          @ (if stop < size' then [MoreBytes (size' - stop)] else [])) } })"

subsection \<open>The session object\<close>

text \<open>
  The members of \<open>CPacketDebug\<close>.  \<open>m_pFile\<close> is whether the handle is non-null, and
  \<open>log_file\<close> is what the object has written to the sink so far.  What the operating
  system supplies (whether \<open>_fsopen\<close> succeeds, \<open>GetTickCount\<close>, \<open>GetLocalTime\<close>) is a
  parameter of the operation that asks for it.
\<close>

record SYSTEMTIME =
  wYear :: "16 word"
  wMonth :: "16 word"
  wDay :: "16 word"
  wHour :: "16 word"
  wMinute :: "16 word"
  wSecond :: "16 word"
  wMilliseconds :: "16 word"

datatype log_entry =
    SessionHeader SYSTEMTIME string
  | SessionFooter "32 word" "32 word"
  | PacketHeader string "32 word" SYSTEMTIME "32 word" byte int
  | Content out_line

record CPacketDebug =
  m_bInit :: bool
  m_pFile :: bool
  m_dwLastTime :: "32 word"
  m_nSend :: "32 word"
  m_nRecv :: "32 word"
  m_szLogPath :: string
  log_file :: "log_entry list"

definition PKT_DBG_LOG_FILE :: string where
  "PKT_DBG_LOG_FILE = ''debug_packet.log''"

text \<open>The constructor (line 86).\<close>

definition CPacketDebug_new :: CPacketDebug where
  "CPacketDebug_new =
     \<lparr>m_bInit = False, m_pFile = False, m_dwLastTime = 0, m_nSend = 0, m_nRecv = 0,
      m_szLogPath = [], log_file = []\<rparr>"

definition Initialize :: "CPacketDebug \<Rightarrow> bool \<Rightarrow> 32 word \<Rightarrow> SYSTEMTIME \<Rightarrow> CPacketDebug" where
  "Initialize s fopen_ok tick st =
     (if m_bInit s then s
      else
        let s1 = s\<lparr>m_szLogPath := PKT_DBG_LOG_FILE, m_pFile := fopen_ok\<rparr> in
        if \<not> m_pFile s1 then s1
        else s1\<lparr>m_dwLastTime := tick, m_bInit := True,
                log_file := log_file s1 @ [SessionHeader st (m_szLogPath s1)]\<rparr>)"

definition Shutdown :: "CPacketDebug \<Rightarrow> CPacketDebug" where
  "Shutdown s =
     (if \<not> m_bInit s then s
      else s\<lparr>log_file := log_file s @ [SessionFooter (m_nSend s) (m_nRecv s)],
              m_pFile := False, m_bInit := False\<rparr>)"

text \<open>\<open>Log\<close> (lines 88 to 109); \<open>data = None\<close> is the null pointer.\<close>

definition Log ::
  "CPacketDebug \<Rightarrow> string \<Rightarrow> byte list option \<Rightarrow> int \<Rightarrow> 32 word \<Rightarrow> SYSTEMTIME
   \<Rightarrow> CPacketDebug option" where
  "Log s dir data size' now st =
     (case data of
        None \<Rightarrow> Some s
      | Some p \<Rightarrow>
          if size' < 1 \<or> \<not> m_pFile s then Some s
          else
            do { header \<leftarrow> rd p size' 0;
                 let dt = now - m_dwLastTime s;
                 content \<leftarrow> PrintContent p size';
                 Some (s\<lparr>m_dwLastTime := now,
                         log_file := log_file s
                           @ PacketHeader dir (m_nSend s + m_nRecv s) st dt header size'
                             # map Content content\<rparr>) })"

definition LogSend ::
  "CPacketDebug \<Rightarrow> byte list option \<Rightarrow> int \<Rightarrow> 32 word \<Rightarrow> SYSTEMTIME \<Rightarrow> CPacketDebug option" where
  "LogSend s data size' now st =
     (if m_bInit s then Log (s\<lparr>m_nSend := m_nSend s + 1\<rparr>) ''SEND'' data size' now st
      else Some s)"

definition LogRecv ::
  "CPacketDebug \<Rightarrow> byte list option \<Rightarrow> int \<Rightarrow> 32 word \<Rightarrow> SYSTEMTIME \<Rightarrow> CPacketDebug option" where
  "LogRecv s data size' now st =
     (if m_bInit s then Log (s\<lparr>m_nRecv := m_nRecv s + 1\<rparr>) ''RECV'' data size' now st
      else Some s)"

subsection \<open>Sequences of calls\<close>

text \<open>The four public operations as values, and a process as the list of the calls it
  makes on the singleton, in order.\<close>

datatype call =
    CallInitialize bool "32 word" SYSTEMTIME
  | CallShutdown
  | CallLogSend "byte list option" int "32 word" SYSTEMTIME
  | CallLogRecv "byte list option" int "32 word" SYSTEMTIME

fun perform :: "CPacketDebug \<Rightarrow> call \<Rightarrow> CPacketDebug option" where
  "perform s (CallInitialize fopen_ok tick st) = Some (Initialize s fopen_ok tick st)"
| "perform s CallShutdown = Some (Shutdown s)"
| "perform s (CallLogSend data size' now st) = LogSend s data size' now st"
| "perform s (CallLogRecv data size' now st) = LogRecv s data size' now st"

fun run :: "CPacketDebug \<Rightarrow> call list \<Rightarrow> CPacketDebug option" where
  "run s [] = Some s"
| "run s (c # cs) = (case perform s c of None \<Rightarrow> None | Some s' \<Rightarrow> run s' cs)"

text \<open>The number of \<open>LogSend\<close> (\<open>LogRecv\<close>) calls made while a session is active, over
  the whole list of calls; \<open>active\<close> is whether a session is active at its beginning.\<close>

fun sends_while_active :: "bool \<Rightarrow> call list \<Rightarrow> nat" where
  "sends_while_active active [] = 0"
| "sends_while_active active (CallInitialize fopen_ok _ _ # cs) =
     sends_while_active (active \<or> fopen_ok) cs"
| "sends_while_active active (CallShutdown # cs) = sends_while_active False cs"
| "sends_while_active active (CallLogSend _ _ _ _ # cs) =
     (if active then 1 else 0) + sends_while_active active cs"
| "sends_while_active active (CallLogRecv _ _ _ _ # cs) = sends_while_active active cs"

fun recvs_while_active :: "bool \<Rightarrow> call list \<Rightarrow> nat" where
  "recvs_while_active active [] = 0"
| "recvs_while_active active (CallInitialize fopen_ok _ _ # cs) =
     recvs_while_active (active \<or> fopen_ok) cs"
| "recvs_while_active active (CallShutdown # cs) = recvs_while_active False cs"
| "recvs_while_active active (CallLogSend _ _ _ _ # cs) = recvs_while_active active cs"
| "recvs_while_active active (CallLogRecv _ _ _ _ # cs) =
     (if active then 1 else 0) + recvs_while_active active cs"

subsection \<open>Vocabulary of the properties\<close>

text \<open>Field records, each with its consumed width, that start at \<open>pos\<close>, follow one
  another without gap or overlap, each of positive width, and end at \<open>stop\<close>.\<close>

fun contiguous :: "int \<Rightarrow> (field \<times> int) list \<Rightarrow> int \<Rightarrow> bool" where
  "contiguous pos [] stop = (stop = pos)"
| "contiguous pos ((f, w) # fs) stop =
     (field_offset f = pos \<and> 0 < w \<and> contiguous (pos + w) fs stop)"

text \<open>The \<open>n\<close> bytes of the buffer from offset \<open>pos\<close> on.\<close>

definition region :: "byte list \<Rightarrow> int \<Rightarrow> nat \<Rightarrow> byte list" where
  "region data pos n = take n (drop (nat pos) data)"

text \<open>A printable, null-padded region: every byte printable or null, at least
  \<open>PKT_DBG_MIN_STR_LEN\<close> printable bytes and at least one null.\<close>

definition padded :: "byte list \<Rightarrow> bool" where
  "padded r \<longleftrightarrow>
     list_all (\<lambda>c. IsPrintable c \<or> c = 0) r
     \<and> length (filter IsPrintable r) \<ge> PKT_DBG_MIN_STR_LEN
     \<and> list_ex (\<lambda>c. c = 0) r"

text \<open>The magnitude of a decoded single lies in the closed interval from \<open>lo\<close> to \<open>hi\<close>.\<close>

fun magnitude_within :: "float32 \<Rightarrow> rat \<Rightarrow> rat \<Rightarrow> bool" where
  "magnitude_within NaN lo hi = False"
| "magnitude_within (Infinity _) lo hi = False"
| "magnitude_within (Finite q) lo hi = (lo \<le> \<bar>q\<bar> \<and> \<bar>q\<bar> \<le> hi)"

section \<open>Properties\<close>

declare str_run.simps [simp del] count_region.simps [simp del] fixed_text.simps [simp del]
  scan_loop.simps [simp del]

text \<open>The equations that evaluate the scan on a concrete buffer.\<close>

lemmas scan_eval =
  PrintContent_def scan_start_def scan_loop.simps scan_step_def
  try_var_string_def str_run.simps
  try_fixed_string_def DetectFixedString_def sizes_def count_region.simps fixed_text.simps
  try_float_def try_int32_def try_int16_def byte_field_def
  rd_def rd16_def rd32_def le16_def le32_def
  IsPrintable_def IsReasonableDWORD_def IsReasonableFloat_def float_of_bits_def
  f_1e10_def f_0_0001_def f_100000_def
  PKT_DBG_MIN_STR_LEN_def PKT_DBG_MAX_FIELDS_def Let_def

subsection \<open>Reads inside the buffer\<close>

lemma rd_in: "0 \<le> i \<Longrightarrow> i < size' \<Longrightarrow> rd data size' i = Some (data ! nat i)"
  by (simp add: rd_def)

lemma rd16_in:
  "0 \<le> i \<Longrightarrow> i + 2 \<le> size' \<Longrightarrow>
   rd16 data size' i = Some (le16 (data ! nat i) (data ! nat (i + 1)))"
  by (simp add: rd16_def rd_in)

lemma rd32_in:
  "0 \<le> i \<Longrightarrow> i + 4 \<le> size' \<Longrightarrow>
   rd32 data size' i =
     Some (le32 (data ! nat i) (data ! nat (i + 1)) (data ! nat (i + 2)) (data ! nat (i + 3)))"
  by (simp add: rd32_def rd_in)

subsection \<open>Every candidate returns, inside the buffer\<close>

lemma str_run_total:
  "0 \<le> pos \<Longrightarrow>
   \<exists>p s'. str_run data size' pos s = Some (p, s') \<and> pos \<le> p \<and> (pos \<le> size' \<longrightarrow> p \<le> size')
          \<and> int (length s') = int (length s) + (p - pos)"
proof (induction data size' pos s rule: str_run.induct)
  case (1 data size' pos s)
  let ?c = "data ! nat pos"
  show ?case
  proof (cases "pos < size' \<and> ?c \<noteq> 0 \<and> IsPrintable ?c \<and> length s < 64")
    case True
    with "1.prems" have r: "rd data size' pos = Some ?c" by (simp add: rd_in)
    from "1.IH" [OF _ r] True "1.prems"
    obtain p s' where h: "str_run data size' (pos + 1) (s @ [?c]) = Some (p, s')"
      "pos + 1 \<le> p" "p \<le> size'" "int (length s') = int (length (s @ [?c])) + (p - (pos + 1))"
      by auto
    have "str_run data size' pos s = str_run data size' (pos + 1) (s @ [?c])"
      using True r by (subst str_run.simps) simp
    with h show ?thesis by auto
  next
    case False
    have "str_run data size' pos s = Some (pos, s)"
      using False "1.prems" by (subst str_run.simps) (auto simp: rd_in)
    then show ?thesis by simp
  qed
qed

lemma try_var_string_total:
  assumes "0 \<le> pos" "pos < size'"
  shows "\<exists>r. try_var_string data size' pos = Some r \<and>
           (\<forall>f p'. r = Some (f, p') \<longrightarrow> field_offset f = pos \<and> pos < p' \<and> p' \<le> size')"
proof -
  obtain p s where h: "str_run data size' pos [] = Some (p, s)" "pos \<le> p" "p \<le> size'"
    "int (length s) = p - pos"
    using str_run_total [OF assms(1), of data size' "[]"] assms by auto
  then have p0: "0 \<le> p" using assms by simp
  show ?thesis
    using assms h p0
    by (auto simp: try_var_string_def rd_in PKT_DBG_MIN_STR_LEN_def)
qed

lemma count_region_total:
  "0 \<le> i \<Longrightarrow> sz \<le> maxLen \<Longrightarrow> \<exists>r. count_region data maxLen sz i printable nulls = Some r"
proof (induction data maxLen sz i printable nulls rule: count_region.induct)
  case (1 data maxLen sz i printable nulls)
  show ?case
  proof (cases "i < sz")
    case True
    with "1.prems" have r: "rd data maxLen i = Some (data ! nat i)" by (simp add: rd_in)
    show ?thesis
      using "1.IH"(1) [OF True r] "1.IH"(2) [OF True r] "1.prems" True r
      by (subst count_region.simps) auto
  next
    case False
    then show ?thesis by (subst count_region.simps) auto
  qed
qed

lemma probe_sizes_total:
  "\<exists>r. probe_sizes data maxLen szs = Some r \<and> (r = 0 \<or> r \<in> set szs \<and> r \<le> maxLen)"
proof (induction szs)
  case Nil
  then show ?case by simp
next
  case (Cons sz rest)
  show ?case
  proof (cases "sz > maxLen")
    case True
    then show ?thesis by simp
  next
    case False
    then obtain r where "count_region data maxLen sz 0 0 0 = Some r"
      using count_region_total [of 0 sz maxLen data 0 0] by auto
    with False Cons show ?thesis by (cases r) auto
  qed
qed

lemma DetectFixedString_total:
  "\<exists>r. DetectFixedString data maxLen = Some r \<and> (r = 0 \<or> 13 \<le> r \<and> r \<le> maxLen)"
  using probe_sizes_total [of data maxLen sizes]
  by (auto simp: DetectFixedString_def sizes_def)

lemma fixed_text_total:
  "0 \<le> pos \<Longrightarrow> 0 \<le> i \<Longrightarrow> pos + fixedStrLen \<le> size' \<Longrightarrow>
   \<exists>r. fixed_text data size' pos fixedStrLen i s = Some r"
proof (induction data size' pos fixedStrLen i s rule: fixed_text.induct)
  case (1 data size' pos fixedStrLen i s)
  show ?case
  proof (cases "i < fixedStrLen")
    case True
    with "1.prems" have r: "rd data size' (pos + i) = Some (data ! nat (pos + i))"
      by (simp add: rd_in)
    show ?thesis
      using "1.IH" [OF True r] "1.prems" True r
      by (subst fixed_text.simps) auto
  next
    case False
    then show ?thesis by (subst fixed_text.simps) simp
  qed
qed

lemma try_fixed_string_total:
  assumes "0 \<le> pos" "pos < size'"
  shows "\<exists>r. try_fixed_string data size' pos = Some r \<and>
           (\<forall>f p'. r = Some (f, p') \<longrightarrow> field_offset f = pos \<and> pos < p' \<and> p' \<le> size')"
proof -
  obtain n where n: "DetectFixedString (drop (nat pos) data) (size' - pos) = Some n"
    "n = 0 \<or> 13 \<le> n \<and> n \<le> size' - pos"
    using DetectFixedString_total by blast
  show ?thesis
  proof (cases "n > 0")
    case True
    with n have "pos + n \<le> size'" by auto
    then obtain s where "fixed_text data size' pos n 0 [] = Some s"
      using fixed_text_total [OF assms(1), of 0 n size' data "[]"] by auto
    with n True show ?thesis by (auto simp: try_fixed_string_def)
  next
    case False
    with n show ?thesis by (auto simp: try_fixed_string_def)
  qed
qed

lemma try_float_total:
  assumes "0 \<le> pos" "pos < size'"
  shows "\<exists>r. try_float data size' pos = Some r \<and>
           (\<forall>f p'. r = Some (f, p') \<longrightarrow> field_offset f = pos \<and> pos < p' \<and> p' \<le> size')"
  using assms by (auto simp: try_float_def rd32_in)

lemma try_int32_total:
  assumes "0 \<le> pos" "pos < size'"
  shows "\<exists>r. try_int32 data size' pos = Some r \<and>
           (\<forall>f p'. r = Some (f, p') \<longrightarrow> field_offset f = pos \<and> pos < p' \<and> p' \<le> size')"
  using assms by (auto simp: try_int32_def rd32_in Let_def)

lemma try_int16_total:
  assumes "0 \<le> pos" "pos < size'"
  shows "\<exists>r. try_int16 data size' pos = Some r \<and>
           (\<forall>f p'. r = Some (f, p') \<longrightarrow> field_offset f = pos \<and> pos < p' \<and> p' \<le> size')"
  using assms by (auto simp: try_int16_def rd16_in Let_def)

lemma byte_field_total:
  assumes "0 \<le> pos" "pos < size'"
  shows "\<exists>f p'. byte_field data size' pos = Some (f, p') \<and> field_offset f = pos \<and> pos < p' \<and> p' \<le> size'"
  using assms by (auto simp: byte_field_def rd_in)

lemma scan_step_total:
  assumes "0 \<le> pos" "pos < size'"
  shows "\<exists>f p'. scan_step data size' pos = Some (f, p') \<and> field_offset f = pos \<and> pos < p' \<and> p' \<le> size'"
proof -
  note t = try_var_string_total [OF assms, of data] try_fixed_string_total [OF assms, of data]
    try_float_total [OF assms, of data] try_int32_total [OF assms, of data]
    try_int16_total [OF assms, of data] byte_field_total [OF assms, of data]
  from t show ?thesis
    unfolding scan_step_def
    by (fastforce split: option.splits)
qed

lemma scan_loop_total:
  "0 \<le> pos \<Longrightarrow> pos \<le> size' \<Longrightarrow>
   \<exists>fs stop. scan_loop data size' pos fieldCount = Some (fs, stop) \<and> contiguous pos fs stop
      \<and> stop \<le> size' \<and> length fs \<le> PKT_DBG_MAX_FIELDS - fieldCount
      \<and> (stop < size' \<longrightarrow> length fs = PKT_DBG_MAX_FIELDS - fieldCount)"
proof (induction data size' pos fieldCount rule: scan_loop.induct)
  case (1 data size' pos fieldCount)
  show ?case
  proof (cases "pos < size' \<and> fieldCount < PKT_DBG_MAX_FIELDS")
    case True
    then obtain f p' where st: "scan_step data size' pos = Some (f, p')" "field_offset f = pos"
      "pos < p'" "p' \<le> size'"
      using scan_step_total [of pos size' data] "1.prems" by auto
    from "1.IH" [OF True st(1) refl] st "1.prems"
    obtain fs stop where r: "scan_loop data size' p' (fieldCount + 1) = Some (fs, stop)"
      "contiguous p' fs stop" "stop \<le> size'" "length fs \<le> PKT_DBG_MAX_FIELDS - (fieldCount + 1)"
      "stop < size' \<longrightarrow> length fs = PKT_DBG_MAX_FIELDS - (fieldCount + 1)"
      by auto
    have "scan_loop data size' pos fieldCount = Some ((f, p' - pos) # fs, stop)"
      using True st(1) r(1) by (subst scan_loop.simps) simp
    with st r True show ?thesis by auto
  next
    case False
    then have "scan_loop data size' pos fieldCount = Some ([], pos)"
      by (subst scan_loop.simps) auto
    with False "1.prems" show ?thesis by auto
  qed
qed

lemma scan_start_total:
  "2 \<le> size' \<Longrightarrow> \<exists>st. scan_start data size' = Some st \<and> (st = 1 \<or> st = 3 \<and> 3 \<le> size')"
  by (auto simp: scan_start_def rd16_in)

subsection \<open>Offsets stay small\<close>

text \<open>Each field advances the offset by at most 256 bytes and the loop runs at most
  \<open>PKT_DBG_MAX_FIELDS\<close> times, so no \<open>int\<close> of the scan comes near its limits.\<close>

lemma str_run_cap:
  "0 \<le> pos \<Longrightarrow> str_run data size' pos s = Some (p, s') \<Longrightarrow> length s \<le> 64 \<Longrightarrow>
   length s' \<le> 64"
proof (induction data size' pos s rule: str_run.induct)
  case (1 data size' pos s)
  let ?c = "data ! nat pos"
  show ?case
  proof (cases "pos < size' \<and> ?c \<noteq> 0 \<and> IsPrintable ?c \<and> length s < 64")
    case True
    with "1.prems" have r: "rd data size' pos = Some ?c" by (simp add: rd_in)
    have "str_run data size' pos s = str_run data size' (pos + 1) (s @ [?c])"
      using True r by (subst str_run.simps) simp
    with "1.prems" have e: "str_run data size' (pos + 1) (s @ [?c]) = Some (p, s')" by simp
    from "1.IH" [OF _ r _ _ e] True "1.prems" show ?thesis by auto
  next
    case False
    have "str_run data size' pos s = Some (pos, s)"
      using False "1.prems" by (subst str_run.simps) (auto simp: rd_in)
    with "1.prems" show ?thesis by simp
  qed
qed

lemma try_var_string_advance:
  assumes "try_var_string data size' pos = Some (Some (f, p'))"
  shows "p' \<le> pos + 65"
proof -
  from assms have b: "0 \<le> pos" "pos < size'"
    by (auto simp: try_var_string_def rd_def split: if_splits bind_splits)
  obtain p s where h: "str_run data size' pos [] = Some (p, s)" "int (length s) = p - pos"
    using str_run_total [OF b(1), of data size' "[]"] by auto
  from str_run_cap [OF b(1) h(1)] have "length s \<le> 64" by simp
  with h(2) have "p \<le> pos + 64" by simp
  moreover from assms h(1) b have "p' \<le> p + 1"
    by (auto simp: try_var_string_def rd_in split: if_splits bind_splits)
  ultimately show ?thesis by simp
qed

lemma try_fixed_string_advance:
  assumes "try_fixed_string data size' pos = Some (Some (f, p'))"
  shows "p' \<le> pos + 256"
proof -
  obtain n where n: "probe_sizes (drop (nat pos) data) (size' - pos) sizes = Some n"
    "n = 0 \<or> n \<in> set sizes \<and> n \<le> size' - pos"
    using probe_sizes_total by blast
  then have "n \<le> 256" by (auto simp: sizes_def)
  with assms n(1) show ?thesis
    by (auto simp: try_fixed_string_def DetectFixedString_def split: if_splits bind_splits)
qed

lemma scan_step_advance:
  assumes "scan_step data size' pos = Some (f, p')"
  shows "p' \<le> pos + 256"
proof -
  have v: "\<And>r. try_var_string data size' pos = Some (Some r) \<Longrightarrow> snd r \<le> pos + 256"
    using try_var_string_advance [of data size' pos] by force
  have x: "\<And>r. try_fixed_string data size' pos = Some (Some r) \<Longrightarrow> snd r \<le> pos + 256"
    using try_fixed_string_advance [of data size' pos] by force
  have fl: "\<And>r. try_float data size' pos = Some (Some r) \<Longrightarrow> snd r \<le> pos + 256"
    by (auto simp: try_float_def split: if_splits bind_splits)
  have i32: "\<And>r. try_int32 data size' pos = Some (Some r) \<Longrightarrow> snd r \<le> pos + 256"
    by (auto simp: try_int32_def Let_def split: if_splits bind_splits)
  have i16: "\<And>r. try_int16 data size' pos = Some (Some r) \<Longrightarrow> snd r \<le> pos + 256"
    by (auto simp: try_int16_def Let_def split: if_splits bind_splits)
  have bf: "\<And>r. byte_field data size' pos = Some r \<Longrightarrow> snd r \<le> pos + 256"
    by (auto simp: byte_field_def split: if_splits bind_splits)
  from assms have "snd (f, p') \<le> pos + 256"
    unfolding scan_step_def
    by (auto split: option.splits dest!: v x fl i32 i16 bf)
  then show ?thesis by simp
qed

lemma scan_loop_offset_bound:
  "scan_loop data size' pos fieldCount = Some (fs, stop) \<Longrightarrow>
   stop \<le> pos + 256 * int (PKT_DBG_MAX_FIELDS - fieldCount)"
proof (induction data size' pos fieldCount arbitrary: fs stop rule: scan_loop.induct)
  case (1 data size' pos fieldCount)
  show ?case
  proof (cases "pos < size' \<and> fieldCount < PKT_DBG_MAX_FIELDS")
    case True
    from "1.prems" True obtain f p' fs' where
      st: "scan_step data size' pos = Some (f, p')"
      and lp: "scan_loop data size' p' (fieldCount + 1) = Some (fs', stop)"
      by (subst (asm) scan_loop.simps) (auto split: option.splits)
    from "1.IH" [OF True st refl lp]
    have "stop \<le> p' + 256 * int (PKT_DBG_MAX_FIELDS - (fieldCount + 1))" .
    moreover from scan_step_advance [OF st] have "p' \<le> pos + 256" .
    moreover from True have "int (PKT_DBG_MAX_FIELDS - fieldCount)
        = int (PKT_DBG_MAX_FIELDS - (fieldCount + 1)) + 1" by simp
    ultimately show ?thesis by simp
  next
    case False
    with "1.prems" have "stop = pos"
      by (subst (asm) scan_loop.simps) auto
    then show ?thesis by simp
  qed
qed

subsection \<open>Contiguous records\<close>

lemma contiguous_bounds:
  "contiguous pos fs stop \<Longrightarrow>
   pos \<le> stop \<and>
   (\<forall>p \<in> set fs. pos \<le> field_offset (fst p) \<and> 0 < snd p \<and> field_offset (fst p) + snd p \<le> stop)"
proof (induction fs arbitrary: pos)
  case Nil
  then show ?case by simp
next
  case (Cons a fs)
  obtain f w where a: "a = (f, w)" by (cases a)
  from Cons.prems a have h: "field_offset f = pos" "0 < w" "contiguous (pos + w) fs stop"
    by auto
  from Cons.IH [OF h(3)] have ih: "pos + w \<le> stop"
    "\<forall>p \<in> set fs. pos + w \<le> field_offset (fst p) \<and> 0 < snd p
        \<and> field_offset (fst p) + snd p \<le> stop"
    by auto
  show ?case
  proof (rule conjI)
    show "pos \<le> stop" using ih(1) h(2) by simp
  next
    show "\<forall>p \<in> set (a # fs). pos \<le> field_offset (fst p) \<and> 0 < snd p
            \<and> field_offset (fst p) + snd p \<le> stop"
    proof (rule ballI)
      fix p assume "p \<in> set (a # fs)"
      then consider "p = (f, w)" | "p \<in> set fs" using a by auto
      then show "pos \<le> field_offset (fst p) \<and> 0 < snd p
                  \<and> field_offset (fst p) + snd p \<le> stop"
      proof cases
        case 1
        then show ?thesis using h ih(1) by simp
      next
        case 2
        with ih(2) have "pos + w \<le> field_offset (fst p) \<and> 0 < snd p
          \<and> field_offset (fst p) + snd p \<le> stop" by blast
        then show ?thesis using h(2) by simp
      qed
    qed
  qed
qed

lemma contiguous_sorted:
  "contiguous pos fs stop \<Longrightarrow> sorted_wrt (<) (map (\<lambda>p. field_offset (fst p)) fs)"
proof (induction fs arbitrary: pos)
  case Nil
  then show ?case by simp
next
  case (Cons a fs)
  obtain f w where a: "a = (f, w)" by (cases a)
  from Cons.prems a have h: "field_offset f = pos" "0 < w" "contiguous (pos + w) fs stop"
    by auto
  from contiguous_bounds [OF h(3)]
  have "\<forall>p \<in> set fs. pos + w \<le> field_offset (fst p)" by blast
  then have "\<forall>p \<in> set fs. field_offset f < field_offset (fst p)"
    using h(1,2) by fastforce
  with Cons.IH [OF h(3)] a show ?case by simp
qed

subsection \<open>The scan as a whole\<close>

lemma PrintContent_total: "\<exists>out. PrintContent data size' = Some out"
proof (cases "1 < size'")
  case False
  then show ?thesis by (simp add: PrintContent_def)
next
  case True
  then obtain start where s: "scan_start data size' = Some start"
    "start = 1 \<or> start = 3 \<and> 3 \<le> size'"
    using scan_start_total [of size' data] by auto
  with True have b: "0 \<le> start" "start \<le> size'" by auto
  from scan_loop_total [OF b, of data 0]
  obtain fs stop where "scan_loop data size' start 0 = Some (fs, stop)" by auto
  with True s(1) show ?thesis by (simp add: PrintContent_def)
qed

lemma Log_total: "\<exists>s'. Log s dir data size' now st = Some s'"
proof (cases "data = None \<or> size' < 1 \<or> \<not> m_pFile s")
  case True
  then show ?thesis by (auto simp: Log_def split: option.splits)
next
  case False
  then obtain p where p: "data = Some p" by auto
  obtain out where "PrintContent p size' = Some out" using PrintContent_total by blast
  with False p show ?thesis by (simp add: Log_def rd_in)
qed

text \<open>
  C1.  For every buffer and every length, \<open>PrintContent\<close> returns without reading
  outside \<open>[0, size)\<close> (its result is never \<open>None\<close>).  When the length exceeds 1, the
  scan start is computed, the loop returns its field records, and these records are
  contiguous from the scan start (each begins where the previous one ended, each has
  positive width), so their offsets are strictly increasing, and each record's
  \<open>[offset, offset + width)\<close> lies within \<open>[start, size)\<close>.
\<close>

theorem fields_contiguous_in_bounds:
  "(\<exists>out. PrintContent data size' = Some out) \<and>
   (1 < size' \<longrightarrow>
     (\<exists>start fs stop.
        scan_start data size' = Some start
        \<and> scan_loop data size' start 0 = Some (fs, stop)
        \<and> contiguous start fs stop
        \<and> sorted_wrt (<) (map (\<lambda>p. field_offset (fst p)) fs)
        \<and> (\<forall>p \<in> set fs. start \<le> field_offset (fst p) \<and> 0 < snd p
              \<and> field_offset (fst p) + snd p \<le> size')
        \<and> stop \<le> size'
        \<and> PrintContent data size' =
            Some (if start \<ge> size' then [HeaderOnly]
                  else Newline # map (FieldLine \<circ> fst) fs
                       @ (if stop < size' then [MoreBytes (size' - stop)] else []))))"
proof (cases "1 < size'")
  case False
  then show ?thesis by (simp add: PrintContent_def)
next
  case True
  then obtain start where s: "scan_start data size' = Some start" "start = 1 \<or> start = 3 \<and> 3 \<le> size'"
    using scan_start_total [of size' data] by auto
  with True have b: "0 \<le> start" "start \<le> size'" by auto
  from scan_loop_total [OF b, of data 0]
  obtain fs stop where l: "scan_loop data size' start 0 = Some (fs, stop)"
    "contiguous start fs stop" "stop \<le> size'"
    by auto
  have c1: "sorted_wrt (<) (map (\<lambda>p. field_offset (fst p)) fs)"
    by (rule contiguous_sorted [OF l(2)])
  have c2: "\<forall>p \<in> set fs. start \<le> field_offset (fst p) \<and> 0 < snd p
              \<and> field_offset (fst p) + snd p \<le> size'"
    using contiguous_bounds [OF l(2)] l(3) by fastforce
  note c = c1 c2
  have o: "PrintContent data size' =
            Some (if start \<ge> size' then [HeaderOnly]
                  else Newline # map (FieldLine \<circ> fst) fs
                       @ (if stop < size' then [MoreBytes (size' - stop)] else []))"
    using True s(1) l(1) by (simp add: PrintContent_def)
  then have "\<exists>out. PrintContent data size' = Some out" by simp
  with True s l c o show ?thesis by blast
qed

theorem fields_contiguous_in_bounds_witness:
  "(1::int) < 6
   \<and> scan_start [7, 0x41, 0x42, 0x43, 0, 9] 6 = Some 1
   \<and> scan_loop [7, 0x41, 0x42, 0x43, 0, 9] 6 1 0
       = Some ([(VarString 1 4 [0x41, 0x42, 0x43], 4), (ByteField 5 9, 1)], 6)
   \<and> contiguous 1 [(VarString 1 4 [0x41, 0x42, 0x43], 4), (ByteField 5 9, 1)] 6
   \<and> PrintContent [7, 0x41, 0x42, 0x43, 0, 9] 6
       = Some [Newline, FieldLine (VarString 1 4 [0x41, 0x42, 0x43]), FieldLine (ByteField 5 9)]"
proof -
  let ?buf = "[7, 0x41, 0x42, 0x43, 0, 9] :: byte list"
  let ?fs = "[(VarString 1 4 [0x41, 0x42, 0x43], 4), (ByteField 5 9, 1)]"
  have a: "(1::int) < 6" by simp
  have b: "scan_start ?buf 6 = Some 1" by (simp add: scan_eval)
  have c: "scan_loop ?buf 6 1 0 = Some (?fs, 6)" by (simp add: scan_eval)
  from fields_contiguous_in_bounds [of ?buf 6, THEN conjunct2, THEN mp, OF a]
  obtain start fs stop where h: "scan_start ?buf 6 = Some start"
    "scan_loop ?buf 6 start 0 = Some (fs, stop)" "contiguous start fs stop"
    "PrintContent ?buf 6 =
       Some (if start \<ge> 6 then [HeaderOnly]
             else Newline # map (FieldLine \<circ> fst) fs
                  @ (if stop < 6 then [MoreBytes (6 - stop)] else []))"
    by blast
  from h(1) b have s: "start = 1" by simp
  from h(2) c s have f: "fs = ?fs" "stop = 6" by simp_all
  from h(3,4) s f a b c show ?thesis by simp
qed

text \<open>
  C2.  For every buffer of length above 1, the loop produces at most
  \<open>PKT_DBG_MAX_FIELDS\<close> field records, and it stops before the end of the buffer only
  with the cap reached.  When scanning takes place, the output is the newline, the
  field lines, and then exactly one \<open>MoreBytes\<close> line holding \<open>size - stop\<close> when the
  loop stopped at \<open>stop < size\<close>, and no such line when \<open>stop = size\<close>.
\<close>

theorem field_cap_and_remainder:
  "1 < size' \<Longrightarrow>
   \<exists>start fs stop.
      scan_start data size' = Some start
      \<and> scan_loop data size' start 0 = Some (fs, stop)
      \<and> length fs \<le> PKT_DBG_MAX_FIELDS
      \<and> (stop < size' \<longrightarrow> length fs = PKT_DBG_MAX_FIELDS)
      \<and> (start < size' \<longrightarrow>
           PrintContent data size' =
             Some (Newline # map (FieldLine \<circ> fst) fs
                   @ (if stop < size' then [MoreBytes (size' - stop)] else [])))"
proof -
  assume a: "1 < size'"
  then obtain start where s: "scan_start data size' = Some start" "start = 1 \<or> start = 3 \<and> 3 \<le> size'"
    using scan_start_total [of size' data] by auto
  with a have b: "0 \<le> start" "start \<le> size'" by auto
  from scan_loop_total [OF b, of data 0]
  obtain fs stop where l: "scan_loop data size' start 0 = Some (fs, stop)"
    "length fs \<le> PKT_DBG_MAX_FIELDS" "stop < size' \<longrightarrow> length fs = PKT_DBG_MAX_FIELDS"
    by auto
  have "start < size' \<longrightarrow>
           PrintContent data size' =
             Some (Newline # map (FieldLine \<circ> fst) fs
                   @ (if stop < size' then [MoreBytes (size' - stop)] else []))"
    using a s(1) l(1) by (simp add: PrintContent_def)
  with s l show ?thesis by blast
qed

theorem field_cap_and_remainder_witness:
  "(1::int) < 21 \<and>
   PrintContent [7, 0, 0, 0, 0, 0, 0, 0, 0, 0, 0, 0, 0, 0, 0, 0, 0, 0, 0, 0, 0] 21 =
     Some (Newline # map (\<lambda>i. FieldLine (ByteBoolField i 0)) [1..16] @ [MoreBytes 4])"
proof -
  let ?buf = "[7, 0, 0, 0, 0, 0, 0, 0, 0, 0, 0, 0, 0, 0, 0, 0, 0, 0, 0, 0, 0] :: byte list"
  let ?fs = "map (\<lambda>i. (ByteBoolField i 0, 1)) [1..16]"
  have a: "(1::int) < 21" by simp
  have b: "scan_start ?buf 21 = Some 1" by (simp add: scan_eval)
  have c: "scan_loop ?buf 21 1 0 = Some (?fs, 17)" by (simp add: scan_eval upto_rec1)
  from field_cap_and_remainder [OF a, of ?buf] b c
  have "PrintContent ?buf 21 =
          Some (Newline # map (FieldLine \<circ> fst) ?fs @ [MoreBytes (21 - 17)])"
    by auto
  then show ?thesis by (simp add: comp_def)
qed

lemma scan_loop_first:
  assumes "0 \<le> pos" "pos < size'"
  shows "\<exists>f w fs stop. scan_loop data size' pos 0 = Some ((f, w) # fs, stop)
           \<and> field_offset f = pos"
proof -
  from assms have le: "pos \<le> size'" by simp
  from scan_loop_total [OF assms(1) le, of data 0]
  obtain fs stop where l: "scan_loop data size' pos 0 = Some (fs, stop)"
    "contiguous pos fs stop" "stop < size' \<longrightarrow> length fs = PKT_DBG_MAX_FIELDS - 0"
    by blast
  have "fs \<noteq> []"
  proof
    assume e: "fs = []"
    with l(2) have "stop = pos" by simp
    with l(3) assms(2) e show False by (simp add: PKT_DBG_MAX_FIELDS_def)
  qed
  then obtain f w fs' where c: "fs = (f, w) # fs'" by (cases fs) auto
  with l(2) have "field_offset f = pos" by simp
  with l(1) c show ?thesis by blast
qed

text \<open>
  C3.  With \<open>size \<ge> 3\<close> and the little-endian 16-bit value of the bytes at offsets 1
  and 2 equal to \<open>size\<close>, the start offset is 3: for \<open>size = 3\<close> the output is the single
  line \<open>(header only)\<close>, and for \<open>size > 3\<close> the output is the newline followed by the
  field lines of the loop run from offset 3, the first of which is printed with offset
  3.  For every other buffer with \<open>size \<ge> 2\<close> the start offset is 1, and the output is
  the newline followed by the field lines of the loop run from offset 1, the first of
  which is printed with offset 1.  Whenever the start offset is at or beyond \<open>size\<close> the
  output is the single line \<open>(header only)\<close>, with no field record.
\<close>

theorem dynamic_length_start:
  "(3 \<le> size' \<and> uint (le16 (data ! 1) (data ! 2)) = size' \<longrightarrow>
      scan_start data size' = Some 3
      \<and> (size' = 3 \<longrightarrow> PrintContent data size' = Some [HeaderOnly])
      \<and> (3 < size' \<longrightarrow>
           (\<exists>f w fs stop.
              scan_loop data size' 3 0 = Some ((f, w) # fs, stop)
              \<and> field_offset f = 3
              \<and> PrintContent data size' =
                  Some (Newline # FieldLine f # map (FieldLine \<circ> fst) fs
                        @ (if stop < size' then [MoreBytes (size' - stop)] else [])))))
   \<and> (2 \<le> size' \<and> \<not> (3 \<le> size' \<and> uint (le16 (data ! 1) (data ! 2)) = size') \<longrightarrow>
        scan_start data size' = Some 1
        \<and> (\<exists>f w fs stop.
              scan_loop data size' 1 0 = Some ((f, w) # fs, stop)
              \<and> field_offset f = 1
              \<and> PrintContent data size' =
                  Some (Newline # FieldLine f # map (FieldLine \<circ> fst) fs
                        @ (if stop < size' then [MoreBytes (size' - stop)] else []))))
   \<and> (\<forall>pos. 1 < size' \<and> scan_start data size' = Some pos \<and> pos \<ge> size'
        \<longrightarrow> PrintContent data size' = Some [HeaderOnly])"
proof (intro conjI impI allI)
  assume h: "3 \<le> size' \<and> uint (le16 (data ! 1) (data ! 2)) = size'"
  then show s: "scan_start data size' = Some 3"
    by (simp add: scan_start_def rd16_in)
  {
    assume "size' = 3"
    with s show "PrintContent data size' = Some [HeaderOnly]"
      by (simp add: PrintContent_def)
  }
  {
    assume lt: "3 < size'"
    from scan_loop_first [of 3 size' data] lt
    obtain f w fs stop where l: "scan_loop data size' 3 0 = Some ((f, w) # fs, stop)"
      "field_offset f = 3" by auto
    have "PrintContent data size' =
            Some (Newline # FieldLine f # map (FieldLine \<circ> fst) fs
                  @ (if stop < size' then [MoreBytes (size' - stop)] else []))"
      using lt s l(1) by (simp add: PrintContent_def)
    with l show "\<exists>f w fs stop.
              scan_loop data size' 3 0 = Some ((f, w) # fs, stop)
              \<and> field_offset f = 3
              \<and> PrintContent data size' =
                  Some (Newline # FieldLine f # map (FieldLine \<circ> fst) fs
                        @ (if stop < size' then [MoreBytes (size' - stop)] else []))"
      by blast
  }
next
  assume h: "2 \<le> size' \<and> \<not> (3 \<le> size' \<and> uint (le16 (data ! 1) (data ! 2)) = size')"
  then show s: "scan_start data size' = Some 1"
    by (auto simp: scan_start_def rd16_in)
  from h have lt: "1 < size'" by simp
  from scan_loop_first [of 1 size' data] lt
  obtain f w fs stop where l: "scan_loop data size' 1 0 = Some ((f, w) # fs, stop)"
    "field_offset f = 1" by auto
  have "PrintContent data size' =
          Some (Newline # FieldLine f # map (FieldLine \<circ> fst) fs
                @ (if stop < size' then [MoreBytes (size' - stop)] else []))"
    using lt s l(1) by (simp add: PrintContent_def)
  with l show "\<exists>f w fs stop.
              scan_loop data size' 1 0 = Some ((f, w) # fs, stop)
              \<and> field_offset f = 1
              \<and> PrintContent data size' =
                  Some (Newline # FieldLine f # map (FieldLine \<circ> fst) fs
                        @ (if stop < size' then [MoreBytes (size' - stop)] else []))"
    by blast
next
  fix pos
  assume "1 < size' \<and> scan_start data size' = Some pos \<and> pos \<ge> size'"
  then show "PrintContent data size' = Some [HeaderOnly]"
    by (simp add: PrintContent_def)
qed

theorem dynamic_length_start_witness:
  "scan_start [7, 3, 0] 3 = Some 3
   \<and> PrintContent [7, 3, 0] 3 = Some [HeaderOnly]
   \<and> scan_start [7, 4, 0] 3 = Some 1
   \<and> PrintContent [7, 4, 0] 3 = Some [Newline, FieldLine (WordField 1 4)]
   \<and> scan_start [7, 5, 0, 9, 9] 5 = Some 3
   \<and> PrintContent [7, 5, 0, 9, 9] 5 = Some [Newline, FieldLine (WordField 3 0x0909)]"
proof -
  have a: "3 \<le> (3::int) \<and> uint (le16 ([7, 3, 0] ! 1) ([7, 3, 0] ! 2)) = 3"
    by (simp add: le16_def)
  have b: "2 \<le> (3::int) \<and> \<not> (3 \<le> (3::int) \<and> uint (le16 ([7, 4, 0] ! 1) ([7, 4, 0] ! 2)) = 3)"
    by (simp add: le16_def)
  have c: "3 \<le> (5::int) \<and> uint (le16 ([7, 5, 0, 9, 9] ! 1) ([7, 5, 0, 9, 9] ! 2)) = 5"
    by (simp add: le16_def)
  note h1 = dynamic_length_start [of 3 "[7, 3, 0]", THEN conjunct1, THEN mp, OF a]
  note h2 = dynamic_length_start [of 3 "[7, 4, 0]", THEN conjunct2, THEN conjunct1, THEN mp, OF b]
  note h3 = dynamic_length_start [of 5 "[7, 5, 0, 9, 9]", THEN conjunct1, THEN mp, OF c]
  have l2: "scan_loop [7, 4, 0] 3 1 0 = Some ([(WordField 1 4, 2)], 3)"
    by (simp add: scan_eval)
  have l3: "scan_loop [7, 5, 0, 9, 9] 5 3 0 = Some ([(WordField 3 0x0909, 2)], 5)"
    by (simp add: scan_eval)
  from h1 have s1: "scan_start [7, 3, 0] 3 = Some 3"
    and p1: "PrintContent [7, 3, 0] 3 = Some [HeaderOnly]" by simp_all
  from h2 l2 have s2: "scan_start [7, 4, 0] 3 = Some 1"
    and p2: "PrintContent [7, 4, 0] 3 = Some [Newline, FieldLine (WordField 1 4)]"
    by auto
  from h3 l3 have s3: "scan_start [7, 5, 0, 9, 9] 5 = Some 3"
    and p3: "PrintContent [7, 5, 0, 9, 9] 5 = Some [Newline, FieldLine (WordField 3 0x0909)]"
    by auto
  from s1 p1 s2 p2 s3 p3 show ?thesis by simp
qed

text \<open>
  C5.  For the buffer \<open>[h, 'A', 'B', 'C', 0]\<close> of length 5, whatever \<open>h\<close> is, the output is
  one string field at offset 1 with value \<open>ABC\<close> (three characters, printed as
  \<open>char[4]\<close>), which consumes the run and its terminating null (4 bytes, up to offset
  5).  For \<open>[h, 'A', 'B', 0]\<close> of length 4 the variable-string candidate is rejected, the
  step at offset 1 commits the 16-bit \<open>WORD\<close> 0x4241 and the remaining byte is a
  \<open>BYTE/bool\<close>.
\<close>

theorem variable_string_examples:
  "PrintContent [h, 0x41, 0x42, 0x43, 0] 5
     = Some [Newline, FieldLine (VarString 1 4 [0x41, 0x42, 0x43])]
   \<and> scan_loop [h, 0x41, 0x42, 0x43, 0] 5 1 0
       = Some ([(VarString 1 4 [0x41, 0x42, 0x43], 4)], 5)
   \<and> try_var_string [h, 0x41, 0x42, 0] 4 1 = Some None
   \<and> scan_step [h, 0x41, 0x42, 0] 4 1 = Some (WordField 1 0x4241, 3)
   \<and> PrintContent [h, 0x41, 0x42, 0] 4
       = Some [Newline, FieldLine (WordField 1 0x4241), FieldLine (ByteBoolField 3 0)]"
  by (simp add: scan_eval)

subsection \<open>The session\<close>

text \<open>
  C8.  What the code does on a null or empty buffer while a session is active:
  \<open>LogSend\<close> with a null pointer, and \<open>LogRecv\<close> with size 0, write nothing and leave
  the time reference alone, but the send (receive) counter of the freshly initialised
  session goes from 0 to 1.
\<close>

theorem null_buffer_still_counted:
  "LogSend (Initialize CPacketDebug_new True tick st) None size' now st'
     = Some ((Initialize CPacketDebug_new True tick st)\<lparr>m_nSend := 1\<rparr>)
   \<and> LogRecv (Initialize CPacketDebug_new True tick st) (Some buf) 0 now st'
     = Some ((Initialize CPacketDebug_new True tick st)\<lparr>m_nRecv := 1\<rparr>)"
  by (simp add: LogSend_def LogRecv_def Log_def Initialize_def CPacketDebug_new_def Let_def)

lemma Log_counters:
  "Log s dir data size' now st = Some s' \<Longrightarrow>
   m_nSend s' = m_nSend s \<and> m_nRecv s' = m_nRecv s \<and> m_bInit s' = m_bInit s"
  by (auto simp: Log_def Let_def split: option.splits if_splits bind_splits)

lemma perform_counters:
  "\<exists>s'. perform s c = Some s'
     \<and> m_nSend s' = m_nSend s + of_nat (sends_while_active (m_bInit s) [c])
     \<and> m_nRecv s' = m_nRecv s + of_nat (recvs_while_active (m_bInit s) [c])"
proof (cases c)
  case (CallInitialize ok tick st)
  then show ?thesis by (simp add: Initialize_def Let_def)
next
  case CallShutdown
  then show ?thesis by (simp add: Shutdown_def)
next
  case (CallLogSend data size' now st)
  show ?thesis
  proof (cases "m_bInit s")
    case True
    obtain s' where l: "Log (s\<lparr>m_nSend := m_nSend s + 1\<rparr>) ''SEND'' data size' now st = Some s'"
      using Log_total by blast
    from Log_counters [OF l] l True CallLogSend show ?thesis by (simp add: LogSend_def)
  next
    case False
    with CallLogSend show ?thesis by (simp add: LogSend_def)
  qed
next
  case (CallLogRecv data size' now st)
  show ?thesis
  proof (cases "m_bInit s")
    case True
    obtain s' where l: "Log (s\<lparr>m_nRecv := m_nRecv s + 1\<rparr>) ''RECV'' data size' now st = Some s'"
      using Log_total by blast
    from Log_counters [OF l] l True CallLogRecv show ?thesis by (simp add: LogRecv_def)
  next
    case False
    with CallLogRecv show ?thesis by (simp add: LogRecv_def)
  qed
qed

lemma perform_active:
  "perform s c = Some s' \<Longrightarrow>
   sends_while_active (m_bInit s) (c # cs)
     = sends_while_active (m_bInit s) [c] + sends_while_active (m_bInit s') cs
   \<and> recvs_while_active (m_bInit s) (c # cs)
     = recvs_while_active (m_bInit s) [c] + recvs_while_active (m_bInit s') cs"
proof (cases c)
  case (CallInitialize ok tick st)
  assume "perform s c = Some s'"
  with CallInitialize show ?thesis by (auto simp: Initialize_def Let_def)
next
  case CallShutdown
  assume "perform s c = Some s'"
  with CallShutdown show ?thesis by (auto simp: Shutdown_def)
next
  case (CallLogSend data size' now st)
  assume "perform s c = Some s'"
  with CallLogSend show ?thesis
    by (auto simp: LogSend_def split: if_splits dest: Log_counters)
next
  case (CallLogRecv data size' now st)
  assume "perform s c = Some s'"
  with CallLogRecv show ?thesis
    by (auto simp: LogRecv_def split: if_splits dest: Log_counters)
qed

lemma run_counters:
  "\<exists>s'. run s cs = Some s'
     \<and> m_nSend s' = m_nSend s + of_nat (sends_while_active (m_bInit s) cs)
     \<and> m_nRecv s' = m_nRecv s + of_nat (recvs_while_active (m_bInit s) cs)"
proof (induction cs arbitrary: s)
  case Nil
  then show ?case by simp
next
  case (Cons c cs)
  obtain s1 where p: "perform s c = Some s1"
    "m_nSend s1 = m_nSend s + of_nat (sends_while_active (m_bInit s) [c])"
    "m_nRecv s1 = m_nRecv s + of_nat (recvs_while_active (m_bInit s) [c])"
    using perform_counters by blast
  obtain s' where r: "run s1 cs = Some s'"
    "m_nSend s' = m_nSend s1 + of_nat (sends_while_active (m_bInit s1) cs)"
    "m_nRecv s' = m_nRecv s1 + of_nat (recvs_while_active (m_bInit s1) cs)"
    using Cons.IH by blast
  from perform_active [OF p(1), of cs] p r show ?case by simp
qed

lemma run_snoc: "run s cs = Some s' \<Longrightarrow> run s (cs @ [c]) = perform s' c"
proof (induction cs arbitrary: s)
  case Nil
  then show ?case by (simp split: option.splits)
next
  case (Cons a cs)
  then show ?case by (cases "perform s a") auto
qed

text \<open>
  C9.  \<open>Shutdown\<close> and \<open>Initialize\<close> leave both packet counters as they are;
  \<open>Shutdown\<close> of an active session only appends the footer, closes the sink and clears
  the flag; and \<open>Initialize\<close> after \<open>Shutdown\<close> (the sink opening) makes the session
  active again.  So
  after any sequence of calls on the singleton the counters hold the numbers of
  \<open>LogSend\<close> and \<open>LogRecv\<close> calls made while a session was active, over all sessions
  since the process started, and a \<open>Shutdown\<close> of an active session writes a footer
  with exactly these totals.
\<close>

theorem counters_accumulate_across_sessions:
  "m_nSend (Shutdown s) = m_nSend s \<and> m_nRecv (Shutdown s) = m_nRecv s
   \<and> m_nSend (Initialize s fopen_ok tick st) = m_nSend s
   \<and> m_nRecv (Initialize s fopen_ok tick st) = m_nRecv s
   \<and> m_bInit (Initialize (Shutdown s) True tick st)
   \<and> (m_bInit s \<longrightarrow>
        Shutdown s = s\<lparr>log_file := log_file s @ [SessionFooter (m_nSend s) (m_nRecv s)],
                       m_pFile := False, m_bInit := False\<rparr>)
   \<and> (\<exists>s'. run CPacketDebug_new cs = Some s'
         \<and> m_nSend s' = of_nat (sends_while_active False cs)
         \<and> m_nRecv s' = of_nat (recvs_while_active False cs)
         \<and> (m_bInit s' \<longrightarrow>
              run CPacketDebug_new (cs @ [CallShutdown]) =
                Some (s'\<lparr>log_file := log_file s' @
                            [SessionFooter (of_nat (sends_while_active False cs))
                                           (of_nat (recvs_while_active False cs))],
                         m_pFile := False, m_bInit := False\<rparr>)))"
proof -
  have a: "m_nSend (Shutdown s) = m_nSend s \<and> m_nRecv (Shutdown s) = m_nRecv s"
    by (simp add: Shutdown_def)
  have b: "m_nSend (Initialize s fopen_ok tick st) = m_nSend s
           \<and> m_nRecv (Initialize s fopen_ok tick st) = m_nRecv s"
    by (simp add: Initialize_def Let_def)
  have c: "m_bInit (Initialize (Shutdown s) True tick st)"
    by (simp add: Initialize_def Shutdown_def Let_def)
  obtain s' where r: "run CPacketDebug_new cs = Some s'"
    "m_nSend s' = of_nat (sends_while_active False cs)"
    "m_nRecv s' = of_nat (recvs_while_active False cs)"
    using run_counters [of CPacketDebug_new cs] by (auto simp: CPacketDebug_new_def)
  have "run CPacketDebug_new (cs @ [CallShutdown]) = Some (Shutdown s')"
    using run_snoc [OF r(1), of CallShutdown] by simp
  then have d: "m_bInit s' \<longrightarrow>
              run CPacketDebug_new (cs @ [CallShutdown]) =
                Some (s'\<lparr>log_file := log_file s' @
                            [SessionFooter (of_nat (sends_while_active False cs))
                                           (of_nat (recvs_while_active False cs))],
                         m_pFile := False, m_bInit := False\<rparr>)"
    using r(2,3) by (simp add: Shutdown_def)
  have e: "m_bInit s \<longrightarrow>
        Shutdown s = s\<lparr>log_file := log_file s @ [SessionFooter (m_nSend s) (m_nRecv s)],
                       m_pFile := False, m_bInit := False\<rparr>"
    by (simp add: Shutdown_def)
  from a b c e r d show ?thesis by blast
qed

theorem counters_accumulate_across_sessions_witness:
  "\<exists>s'. run CPacketDebug_new
           [CallInitialize True 100 \<lparr>wYear = 2024, wMonth = 1, wDay = 2, wHour = 3,
                                     wMinute = 4, wSecond = 5, wMilliseconds = 6\<rparr>,
            CallLogSend (Some [7, 0]) 2 110 \<lparr>wYear = 2024, wMonth = 1, wDay = 2, wHour = 3,
                                     wMinute = 4, wSecond = 5, wMilliseconds = 16\<rparr>,
            CallShutdown,
            CallInitialize True 200 \<lparr>wYear = 2024, wMonth = 1, wDay = 2, wHour = 3,
                                     wMinute = 4, wSecond = 6, wMilliseconds = 6\<rparr>,
            CallLogRecv (Some [7, 0]) 2 230 \<lparr>wYear = 2024, wMonth = 1, wDay = 2, wHour = 3,
                                     wMinute = 4, wSecond = 6, wMilliseconds = 36\<rparr>,
            CallShutdown] = Some s'
         \<and> filter (\<lambda>e. case e of SessionFooter _ _ \<Rightarrow> True | _ \<Rightarrow> False) (log_file s')
             = [SessionFooter 1 0, SessionFooter 1 1]"
proof -
  let ?t1 = "\<lparr>wYear = 2024, wMonth = 1, wDay = 2, wHour = 3,
              wMinute = 4, wSecond = 5, wMilliseconds = 6\<rparr> :: SYSTEMTIME"
  let ?t2 = "\<lparr>wYear = 2024, wMonth = 1, wDay = 2, wHour = 3,
              wMinute = 4, wSecond = 5, wMilliseconds = 16\<rparr> :: SYSTEMTIME"
  let ?t3 = "\<lparr>wYear = 2024, wMonth = 1, wDay = 2, wHour = 3,
              wMinute = 4, wSecond = 6, wMilliseconds = 6\<rparr> :: SYSTEMTIME"
  let ?t4 = "\<lparr>wYear = 2024, wMonth = 1, wDay = 2, wHour = 3,
              wMinute = 4, wSecond = 6, wMilliseconds = 36\<rparr> :: SYSTEMTIME"
  let ?cs = "[CallInitialize True 100 ?t1, CallLogSend (Some [7, 0]) 2 110 ?t2, CallShutdown,
              CallInitialize True 200 ?t3, CallLogRecv (Some [7, 0]) 2 230 ?t4]"
  let ?s = "\<lparr>m_bInit = True, m_pFile = True, m_dwLastTime = 230, m_nSend = 1, m_nRecv = 1,
             m_szLogPath = PKT_DBG_LOG_FILE,
             log_file = [SessionHeader ?t1 PKT_DBG_LOG_FILE,
                         PacketHeader ''SEND'' 1 ?t2 10 7 2, Content Newline,
                         Content (FieldLine (ByteBoolField 1 0)),
                         SessionFooter 1 0,
                         SessionHeader ?t3 PKT_DBG_LOG_FILE,
                         PacketHeader ''RECV'' 2 ?t4 30 7 2, Content Newline,
                         Content (FieldLine (ByteBoolField 1 0))]\<rparr>"
  have e: "run CPacketDebug_new ?cs = Some ?s"
    by (simp add: CPacketDebug_new_def Initialize_def Shutdown_def LogSend_def LogRecv_def
        Log_def scan_eval)
  have n: "sends_while_active False ?cs = 1" "recvs_while_active False ?cs = 1"
    by simp_all
  from counters_accumulate_across_sessions [of _ _ _ _ ?cs] e n
  have "run CPacketDebug_new (?cs @ [CallShutdown]) =
          Some (?s\<lparr>log_file := log_file ?s @ [SessionFooter 1 1],
                   m_pFile := False, m_bInit := False\<rparr>)"
    by auto
  then show ?thesis by simp
qed

subsection \<open>The variable string candidate\<close>

lemma str_run_bytes:
  "0 \<le> pos \<Longrightarrow> str_run data size' pos s = Some (p, s') \<Longrightarrow>
   s' = s @ map (\<lambda>i. data ! nat i) [pos..p - 1]
   \<and> list_all IsPrintable (map (\<lambda>i. data ! nat i) [pos..p - 1])"
proof (induction data size' pos s rule: str_run.induct)
  case (1 data size' pos s)
  let ?c = "data ! nat pos"
  show ?case
  proof (cases "pos < size' \<and> ?c \<noteq> 0 \<and> IsPrintable ?c \<and> length s < 64")
    case True
    with "1.prems" have r: "rd data size' pos = Some ?c" by (simp add: rd_in)
    have e: "str_run data size' pos s = str_run data size' (pos + 1) (s @ [?c])"
      using True r by (subst str_run.simps) simp
    with "1.prems" have e': "str_run data size' (pos + 1) (s @ [?c]) = Some (p, s')" by simp
    from str_run_total [of "pos + 1" data size' "s @ [?c]"] "1.prems" e'
    have le: "pos + 1 \<le> p" by auto
    from "1.IH" [OF _ r _ _ e'] True "1.prems"
    have ih: "s' = (s @ [?c]) @ map (\<lambda>i. data ! nat i) [pos + 1..p - 1]"
      "list_all IsPrintable (map (\<lambda>i. data ! nat i) [pos + 1..p - 1])"
      by auto
    have u: "[pos..p - 1] = pos # [pos + 1..p - 1]"
      using le by (simp add: upto_rec1)
    from ih u True show ?thesis by simp
  next
    case False
    have "str_run data size' pos s = Some (pos, s)"
      using False "1.prems" by (subst str_run.simps) (auto simp: rd_in)
    with "1.prems" show ?thesis by simp
  qed
qed

text \<open>
  C10.  Whenever the variable-string candidate commits a field, the string \<open>s\<close> is the
  run of printable bytes from \<open>pos\<close> on, and the width printed in \<open>char[N]\<close> is
  \<open>length s + 1\<close>.  When the run stopped inside the buffer the byte after it is the null,
  which is consumed too, so the bytes consumed equal the printed width; when the run
  stopped at the end of the buffer only the run is consumed and the printed width is the
  number of bytes consumed plus one.
\<close>

theorem var_string_rendered_width:
  assumes "try_var_string data size' pos = Some (Some (f, p'))"
  shows "\<exists>p s. str_run data size' pos [] = Some (p, s)
           \<and> s = map (\<lambda>i. data ! nat i) [pos..p - 1] \<and> list_all IsPrintable s
           \<and> int (length s) = p - pos
           \<and> f = VarString pos (length s + 1) s
           \<and> (if p < size' then data ! nat p = 0 \<and> p' - pos = int (length s) + 1
               else p = size' \<and> int (length s + 1) = (p' - pos) + 1)"
proof -
  from assms have b: "0 \<le> pos" "pos < size'"
    by (auto simp: try_var_string_def rd_def split: if_splits bind_splits)
  obtain p s where h: "str_run data size' pos [] = Some (p, s)" "pos \<le> p" "p \<le> size'"
    "int (length s) = p - pos"
    using str_run_total [OF b(1), of data size' "[]"] b by auto
  from str_run_bytes [OF b(1) h(1)]
  have s: "s = map (\<lambda>i. data ! nat i) [pos..p - 1]" "list_all IsPrintable s" by auto
  have p0: "0 \<le> p" using b h by simp
  from assms b h p0
  have "f = VarString pos (length s + 1) s
        \<and> (if p < size' then data ! nat p = 0 \<and> p' - pos = int (length s) + 1
            else p = size' \<and> int (length s + 1) = (p' - pos) + 1)"
    by (auto simp: try_var_string_def rd_in split: if_splits)
  with h s show ?thesis by blast
qed

theorem var_string_rendered_width_witness:
  "try_var_string [7, 0x41, 0x42, 0x43] 4 1 = Some (Some (VarString 1 4 [0x41, 0x42, 0x43], 4))
   \<and> (\<exists>p s. str_run [7, 0x41, 0x42, 0x43] 4 1 [] = Some (p, s)
           \<and> VarString 1 4 [0x41, 0x42, 0x43] = VarString 1 (length s + 1) s
           \<and> p = 4 \<and> int (length s + 1) = (4 - 1) + 1)"
proof -
  have a: "try_var_string [7, 0x41, 0x42, 0x43] 4 1
             = Some (Some (VarString 1 4 [0x41, 0x42, 0x43], 4))"
    by (simp add: scan_eval)
  from var_string_rendered_width [OF a] a show ?thesis
    by (auto split: if_splits)
qed

subsection \<open>The 16-bit candidate\<close>

lemma sint_16:
  fixes u :: "16 word"
  shows "sint u = (if uint u < 32768 then uint u else uint u - 65536)"
proof -
  have e: "sint u = (uint u + 32768) mod 65536 - 32768"
    by (simp add: sint_uint signed_take_bit_eq_take_bit_shift take_bit_eq_mod)
  have b: "0 \<le> uint u" "uint u < 65536" using uint_bounded [of u] by auto
  show ?thesis
  proof (cases "uint u < 32768")
    case True
    with b have "(uint u + 32768) mod 65536 = uint u + 32768" by simp
    with e True show ?thesis by simp
  next
    case False
    have "uint u + 32768 = (uint u - 32768) + 65536" by arith
    then have "(uint u + 32768) mod 65536 = ((uint u - 32768) + 65536) mod 65536"
      by (rule arg_cong)
    also have "\<dots> = (uint u - 32768) mod 65536" by (simp only: mod_add_self2)
    also have "\<dots> = uint u - 32768" using False b by simp
    finally show ?thesis using e False by simp
  qed
qed

lemma word_range_16:
  fixes u :: "16 word"
  shows "(\<not> (sint u < 0 \<and> - 32000 < sint u) \<and> 0 < uint u \<and> uint u < 0xFFF0)
         \<longleftrightarrow> (0 < uint u \<and> uint u \<le> 0x8300)"
proof (cases "uint u < 32768")
  case True
  then show ?thesis by (auto simp: sint_16)
next
  case False
  then show ?thesis by (auto simp: sint_16)
qed

text \<open>
  C6, as the code has it.  At an offset with at least 2 remaining bytes where no earlier
  candidate commits, the step commits a signed \<open>short\<close> exactly when the little-endian
  16-bit value \<open>sval\<close> satisfies \<open>-32000 < sval < 0\<close> (the bound -32000 itself is excluded),
  and otherwise a \<open>WORD\<close> exactly when the unsigned value lies strictly between 0 and
  0xFFF0; the signed test coming first, a \<open>WORD\<close> is committed exactly for the unsigned
  values 1 to 0x8300.  Either field consumes 2 bytes; otherwise the byte fallback runs.
\<close>

theorem int16_candidate:
  assumes "0 \<le> pos" "pos + 2 \<le> size'"
    and "try_var_string data size' pos = Some None"
    and "try_fixed_string data size' pos = Some None"
    and "try_float data size' pos = Some None"
    and "try_int32 data size' pos = Some None"
  shows "let u = le16 (data ! nat pos) (data ! nat (pos + 1)) in
         scan_step data size' pos =
           (if - 32000 < sint u \<and> sint u < 0 then Some (ShortField pos (sint u) u, pos + 2)
            else if 0 < uint u \<and> uint u < 0xFFF0 then Some (WordField pos u, pos + 2)
            else byte_field data size' pos)
         \<and> ((\<exists>sv uv p'. scan_step data size' pos = Some (ShortField pos sv uv, p'))
              \<longleftrightarrow> - 32000 < sint u \<and> sint u < 0)
         \<and> ((\<exists>uv p'. scan_step data size' pos = Some (WordField pos uv, p'))
              \<longleftrightarrow> 0 < uint u \<and> uint u \<le> 0x8300)"
proof -
  let ?u = "le16 (data ! nat pos) (data ! nat (pos + 1))"
  have b: "byte_field data size' pos =
      Some (if data ! nat pos = 0 \<or> data ! nat pos = 1 then ByteBoolField pos (data ! nat pos)
            else ByteField pos (data ! nat pos), pos + 1)"
    using assms(1,2) by (simp add: byte_field_def rd_in)
  have t: "try_int16 data size' pos =
           (if - 32000 < sint ?u \<and> sint ?u < 0 then Some (Some (ShortField pos (sint ?u) ?u, pos + 2))
            else if 0 < uint ?u \<and> uint ?u < 0xFFF0 then Some (Some (WordField pos ?u, pos + 2))
            else Some None)"
    using assms(1,2) by (auto simp: try_int16_def rd16_in Let_def)
  have e: "scan_step data size' pos =
           (if - 32000 < sint ?u \<and> sint ?u < 0 then Some (ShortField pos (sint ?u) ?u, pos + 2)
            else if 0 < uint ?u \<and> uint ?u < 0xFFF0 then Some (WordField pos ?u, pos + 2)
            else byte_field data size' pos)"
    using assms(3-6) t by (simp add: scan_step_def)
  have s: "(\<exists>sv uv p'. scan_step data size' pos = Some (ShortField pos sv uv, p'))
              \<longleftrightarrow> - 32000 < sint ?u \<and> sint ?u < 0"
    unfolding e b by auto
  have w: "(\<exists>uv p'. scan_step data size' pos = Some (WordField pos uv, p'))
              \<longleftrightarrow> \<not> (sint ?u < 0 \<and> - 32000 < sint ?u) \<and> 0 < uint ?u \<and> uint ?u < 0xFFF0"
    unfolding e b by auto
  from e s w show ?thesis
    unfolding Let_def word_range_16 [symmetric] by blast
qed

text \<open>The value -32000 (bytes 00 83) reaches the 16-bit candidate and is committed as a
  \<open>WORD\<close>, not as a \<open>short\<close>; the unsigned value 0xFFEF, strictly between 0 and 0xFFF0, is
  committed as the \<open>short\<close> -17, not as a \<open>WORD\<close>.\<close>

theorem int16_candidate_counterexample:
  "try_var_string [7, 0x00, 0x83] 3 1 = Some None
   \<and> try_fixed_string [7, 0x00, 0x83] 3 1 = Some None
   \<and> try_float [7, 0x00, 0x83] 3 1 = Some None
   \<and> try_int32 [7, 0x00, 0x83] 3 1 = Some None
   \<and> sint (le16 0x00 0x83) = - 32000
   \<and> scan_step [7, 0x00, 0x83] 3 1 = Some (WordField 1 0x8300, 3)
   \<and> try_var_string [7, 0xEF, 0xFF] 3 1 = Some None
   \<and> try_fixed_string [7, 0xEF, 0xFF] 3 1 = Some None
   \<and> try_float [7, 0xEF, 0xFF] 3 1 = Some None
   \<and> try_int32 [7, 0xEF, 0xFF] 3 1 = Some None
   \<and> uint (le16 0xEF 0xFF) = 0xFFEF
   \<and> scan_step [7, 0xEF, 0xFF] 3 1 = Some (ShortField 1 (- 17) 0xFFEF, 3)"
  by (simp add: scan_eval)

theorem int16_candidate_witness:
  "scan_step [7, 0x01, 0x83] 3 1 = Some (ShortField 1 (- 31999) 0x8301, 3)
   \<and> scan_step [7, 0x00, 0x83] 3 1 = Some (WordField 1 0x8300, 3)"
proof -
  have a: "(0::int) \<le> 1" "(1::int) + 2 \<le> 3" by simp_all
  have h1: "try_var_string [7, 0x01, 0x83] 3 1 = Some None"
    "try_fixed_string [7, 0x01, 0x83] 3 1 = Some None"
    "try_float [7, 0x01, 0x83] 3 1 = Some None"
    "try_int32 [7, 0x01, 0x83] 3 1 = Some None"
    by (simp_all add: scan_eval)
  have h2: "try_var_string [7, 0x00, 0x83] 3 1 = Some None"
    "try_fixed_string [7, 0x00, 0x83] 3 1 = Some None"
    "try_float [7, 0x00, 0x83] 3 1 = Some None"
    "try_int32 [7, 0x00, 0x83] 3 1 = Some None"
    by (simp_all add: scan_eval)
  have v1: "le16 ([7, 0x01, 0x83] ! nat 1) ([7, 0x01, 0x83] ! nat (1 + 1)) = 0x8301"
    by (simp add: le16_def)
  have v2: "le16 ([7, 0x00, 0x83] ! nat 1) ([7, 0x00, 0x83] ! nat (1 + 1)) = 0x8300"
    by (simp add: le16_def)
  from int16_candidate [OF a h1] have "scan_step [7, 0x01, 0x83] 3 1 = Some (ShortField 1 (- 31999) 0x8301, 3)"
    unfolding Let_def v1 by simp
  moreover
  from int16_candidate [OF a h2] have "scan_step [7, 0x00, 0x83] 3 1 = Some (WordField 1 0x8300, 3)"
    unfolding Let_def v2 by simp
  ultimately show ?thesis by simp
qed

subsection \<open>The float candidate\<close>

lemma region_nth:
  assumes "region data pos n = r" "length r = n" "0 \<le> pos" "i < n"
  shows "data ! nat (pos + int i) = r ! i"
proof -
  let ?k = "nat pos"
  from assms(1,2) have "min n (length data - ?k) = n" by (auto simp: region_def)
  with assms(4) have k: "?k \<le> length data" by auto
  have "r ! i = drop ?k data ! i" using assms(1,4) by (auto simp: region_def)
  also have "\<dots> = data ! (?k + i)" using k by simp
  finally show ?thesis using assms(3) by (simp add: nat_add_distrib)
qed

lemma region_drop_nth:
  assumes "region data pos n = r" "length r = n" "i < n"
  shows "drop (nat pos) data ! i = r ! i"
  using assms by (auto simp: region_def)

lemma count_region_invalid:
  "0 \<le> i \<Longrightarrow> i \<le> j \<Longrightarrow> j < sz \<Longrightarrow> sz \<le> maxLen \<Longrightarrow>
   \<not> IsPrintable (d ! nat j) \<Longrightarrow> d ! nat j \<noteq> 0 \<Longrightarrow>
   \<exists>p n. count_region d maxLen sz i printable nulls = Some (False, p, n)"
proof (induction d maxLen sz i printable nulls rule: count_region.induct)
  case (1 d maxLen sz i printable nulls)
  from "1.prems" have lt: "i < sz" by simp
  with "1.prems" have r: "rd d maxLen i = Some (d ! nat i)" by (simp add: rd_in)
  show ?case
  proof (cases "i = j")
    case True
    with "1.prems" lt r show ?thesis by (subst count_region.simps) simp
  next
    case False
    with "1.prems" have n: "0 \<le> i + 1" "i + 1 \<le> j" by auto
    note ih1 = "1.IH"(1) [OF lt r _ n "1.prems"(3-6)]
    note ih2 = "1.IH"(2) [OF lt r _ _ n "1.prems"(3-6)]
    show ?thesis
      using ih1 ih2 lt r by (subst count_region.simps) auto
  qed
qed

lemma probe_sizes_invalid:
  "0 \<le> j \<Longrightarrow> \<forall>sz \<in> set szs. j < sz \<Longrightarrow> \<not> IsPrintable (d ! nat j) \<Longrightarrow> d ! nat j \<noteq> 0 \<Longrightarrow>
   probe_sizes d maxLen szs = Some 0"
proof (induction szs)
  case Nil
  then show ?case by simp
next
  case (Cons sz rest)
  show ?case
  proof (cases "sz > maxLen")
    case True
    then show ?thesis by simp
  next
    case False
    from Cons.prems have "j < sz" by simp
    with False Cons.prems obtain p n where "count_region d maxLen sz 0 0 0 = Some (False, p, n)"
      using count_region_invalid [of 0 j sz maxLen d 0 0] by auto
    with False Cons show ?thesis by simp
  qed
qed

lemma IsReasonableFloat_iff:
  "IsReasonableFloat v \<longleftrightarrow>
     v \<noteq> NaN \<and> magnitude_within v 0 f_1e10 \<and> v \<noteq> Finite 0
     \<and> magnitude_within v f_0_0001 f_100000"
  by (cases v) (auto simp: IsReasonableFloat_def Let_def f_1e10_def f_0_0001_def f_100000_def)

text \<open>
  C7, as the code has it.  At an offset with at least 4 remaining bytes where neither
  string candidate commits, the step commits a \<open>float\<close> field (of 4 bytes) exactly when
  the decoded single is not NaN, its magnitude is at most \<open>1e10f\<close>, it is not zero, and
  its magnitude lies between the single-precision constants \<open>0.0001f\<close> (13743895 * 2^-37)
  and \<open>100000.0f\<close>.  The bytes 00 00 80 3F (1.0) are always committed as a float: no
  string candidate can match them.  The bytes 00 00 00 00, when the fixed-string
  candidate does not commit, are rejected by the float, the 32-bit and the 16-bit
  candidates and end as a \<open>BYTE/bool\<close> of one byte.
\<close>

theorem float_candidate:
  assumes "0 \<le> pos" "pos + 4 \<le> size'"
  shows
    "(try_var_string data size' pos = Some None \<and> try_fixed_string data size' pos = Some None
       \<longrightarrow>
       (let w = le32 (data ! nat pos) (data ! nat (pos + 1)) (data ! nat (pos + 2))
                     (data ! nat (pos + 3));
            v = float_of_bits w;
            reasonable = (v \<noteq> NaN \<and> magnitude_within v 0 f_1e10 \<and> v \<noteq> Finite 0
                          \<and> magnitude_within v f_0_0001 f_100000)
        in ((\<exists>w' p'. scan_step data size' pos = Some (FloatField pos w', p')) \<longleftrightarrow> reasonable)
           \<and> (reasonable \<longrightarrow> scan_step data size' pos = Some (FloatField pos w, pos + 4))))
     \<and> (region data pos 4 = [0x00, 0x00, 0x80, 0x3F]
          \<longrightarrow> scan_step data size' pos = Some (FloatField pos 0x3F800000, pos + 4))
     \<and> (region data pos 4 = [0, 0, 0, 0] \<and> try_fixed_string data size' pos = Some None
          \<longrightarrow> try_float data size' pos = Some None
              \<and> try_int32 data size' pos = Some None
              \<and> try_int16 data size' pos = Some None
              \<and> scan_step data size' pos = Some (ByteBoolField pos 0, pos + 1))"
proof (intro conjI impI)
  let ?w = "le32 (data ! nat pos) (data ! nat (pos + 1)) (data ! nat (pos + 2))
                 (data ! nat (pos + 3))"
  have tf: "try_float data size' pos =
      (if IsReasonableFloat (float_of_bits ?w) then Some (Some (FloatField pos ?w, pos + 4))
       else Some None)"
    using assms by (simp add: try_float_def rd32_in)
  have t32: "\<exists>r. try_int32 data size' pos = Some r
               \<and> (\<forall>f p'. r = Some (f, p') \<longrightarrow> (\<exists>a b. f = LongField pos a b) \<or> (\<exists>a. f = DwordField pos a))"
    using assms by (auto simp: try_int32_def rd32_in Let_def)
  have t16: "\<exists>r. try_int16 data size' pos = Some r
               \<and> (\<forall>f p'. r = Some (f, p') \<longrightarrow> (\<exists>a b. f = ShortField pos a b) \<or> (\<exists>a. f = WordField pos a))"
    using assms by (auto simp: try_int16_def rd16_in Let_def)
  have bf: "\<exists>f p'. byte_field data size' pos = Some (f, p')
               \<and> ((\<exists>a. f = ByteBoolField pos a) \<or> (\<exists>a. f = ByteField pos a))"
    using assms by (auto simp: byte_field_def rd_in)
  {
    assume h: "try_var_string data size' pos = Some None \<and> try_fixed_string data size' pos = Some None"
    have no: "\<not> IsReasonableFloat (float_of_bits ?w) \<Longrightarrow>
              \<not> (\<exists>w' p'. scan_step data size' pos = Some (FloatField pos w', p'))"
      using h tf t32 t16 bf
      by (fastforce simp: scan_step_def split: option.splits)
    have yes: "IsReasonableFloat (float_of_bits ?w) \<Longrightarrow>
               scan_step data size' pos = Some (FloatField pos ?w, pos + 4)"
      using h tf by (simp add: scan_step_def)
    from no yes
    show "let w = ?w; v = float_of_bits w;
            reasonable = (v \<noteq> NaN \<and> magnitude_within v 0 f_1e10 \<and> v \<noteq> Finite 0
                          \<and> magnitude_within v f_0_0001 f_100000)
        in ((\<exists>w' p'. scan_step data size' pos = Some (FloatField pos w', p')) \<longleftrightarrow> reasonable)
           \<and> (reasonable \<longrightarrow> scan_step data size' pos = Some (FloatField pos w, pos + 4))"
      unfolding Let_def IsReasonableFloat_iff [symmetric] by blast
  }
  {
    assume r: "region data pos 4 = [0x00, 0x00, 0x80, 0x3F]"
    have n: "data ! nat pos = 0" "data ! nat (pos + 1) = 0" "data ! nat (pos + 2) = 0x80"
      "data ! nat (pos + 3) = 0x3F"
      using region_nth [OF r _ assms(1), of 0] region_nth [OF r _ assms(1), of 1]
        region_nth [OF r _ assms(1), of 2] region_nth [OF r _ assms(1), of 3]
      by simp_all
    have v: "try_var_string data size' pos = Some None"
      using assms n by (simp add: try_var_string_def rd_in IsPrintable_def)
    have "drop (nat pos) data ! nat 2 = 0x80"
      using region_drop_nth [OF r, of 2] by simp
    then have "DetectFixedString (drop (nat pos) data) (size' - pos) = Some 0"
      unfolding DetectFixedString_def
      by (intro probe_sizes_invalid [where j = 2]) (simp_all add: sizes_def IsPrintable_def)
    then have f: "try_fixed_string data size' pos = Some None"
      by (simp add: try_fixed_string_def)
    have "?w = 0x3F800000" using n by (simp add: le32_def)
    moreover have "IsReasonableFloat (float_of_bits 0x3F800000)"
      by (simp add: float_of_bits_def IsReasonableFloat_def f_1e10_def f_0_0001_def f_100000_def)
    ultimately show "scan_step data size' pos = Some (FloatField pos 0x3F800000, pos + 4)"
      using v f tf by (simp add: scan_step_def)
  }
  {
    assume a: "region data pos 4 = [0, 0, 0, 0] \<and> try_fixed_string data size' pos = Some None"
    then have r: "region data pos 4 = [0, 0, 0, 0]" by simp
    have n: "data ! nat pos = 0" "data ! nat (pos + 1) = 0" "data ! nat (pos + 2) = 0"
      "data ! nat (pos + 3) = 0"
      using region_nth [OF r _ assms(1), of 0] region_nth [OF r _ assms(1), of 1]
        region_nth [OF r _ assms(1), of 2] region_nth [OF r _ assms(1), of 3]
      by simp_all
    have v: "try_var_string data size' pos = Some None"
      using assms n by (simp add: try_var_string_def rd_in IsPrintable_def)
    have w0: "?w = 0" using n by (simp add: le32_def)
    show f0: "try_float data size' pos = Some None"
      using tf w0 by (simp add: float_of_bits_def IsReasonableFloat_def)
    show i32: "try_int32 data size' pos = Some None"
      using assms n by (simp add: try_int32_def rd32_in le32_def IsReasonableDWORD_def)
    show i16: "try_int16 data size' pos = Some None"
      using assms n by (simp add: try_int16_def rd16_in le16_def)
    show "scan_step data size' pos = Some (ByteBoolField pos 0, pos + 1)"
      using a v f0 i32 i16 assms n by (simp add: scan_step_def byte_field_def rd_in)
  }
qed

text \<open>The bytes \<open>ABCD\<close> followed by a null decode to the float 781.035..., which passes
  \<open>IsReasonableFloat\<close>, yet the step commits the variable string.  The single 0x38D1B717
  is below 1/10000 and is committed as a float.  Four zero bytes that begin a 13-byte
  padded region are committed as a fixed string and never reach the integer
  candidates.\<close>

theorem float_candidate_counterexample:
  "float_of_bits (le32 0x41 0x42 0x43 0x44) = Finite (12796481 / 16384)
   \<and> IsReasonableFloat (float_of_bits (le32 0x41 0x42 0x43 0x44))
   \<and> scan_step [7, 0x41, 0x42, 0x43, 0x44, 0] 6 1
       = Some (VarString 1 5 [0x41, 0x42, 0x43, 0x44], 6)
   \<and> float_of_bits (le32 0x17 0xB7 0xD1 0x38) = Finite (13743895 / 137438953472)
   \<and> (13743895 / 137438953472 :: rat) < 1 / 10000
   \<and> scan_step [7, 0x17, 0xB7, 0xD1, 0x38] 5 1 = Some (FloatField 1 0x38D1B717, 5)
   \<and> scan_step [7, 0, 0, 0, 0, 0x41, 0x42, 0x43, 0, 0, 0, 0, 0, 0] 14 1
       = Some (FixedString 1 13 [], 14)"
  by (simp add: scan_eval)

theorem float_candidate_witness:
  "scan_step [7, 0x00, 0x00, 0x80, 0x3F] 5 1 = Some (FloatField 1 0x3F800000, 5)
   \<and> scan_step [7, 0, 0, 0, 0] 5 1 = Some (ByteBoolField 1 0, 2)
   \<and> scan_step [7, 0x17, 0xB7, 0xD1, 0x38] 5 1 = Some (FloatField 1 0x38D1B717, 5)"
proof -
  have a: "(0::int) \<le> 1" "(1::int) + 4 \<le> 5" by simp_all
  have r1: "region [7, 0x00, 0x00, 0x80, 0x3F] 1 4 = [0x00, 0x00, 0x80, 0x3F]"
    by (simp add: region_def)
  have r2: "region [7, 0, 0, 0, 0] 1 4 = [0, 0, 0, 0]
            \<and> try_fixed_string [7, 0, 0, 0, 0] 5 1 = Some None"
    by (simp add: region_def scan_eval)
  have r3: "try_var_string [7, 0x17, 0xB7, 0xD1, 0x38] 5 1 = Some None
            \<and> try_fixed_string [7, 0x17, 0xB7, 0xD1, 0x38] 5 1 = Some None"
    by (simp add: scan_eval)
  have v3: "le32 ([7, 0x17, 0xB7, 0xD1, 0x38] ! nat 1) ([7, 0x17, 0xB7, 0xD1, 0x38] ! nat (1 + 1))
              ([7, 0x17, 0xB7, 0xD1, 0x38] ! nat (1 + 2)) ([7, 0x17, 0xB7, 0xD1, 0x38] ! nat (1 + 3))
            = 0x38D1B717"
    by (simp add: le32_def)
  have f3: "float_of_bits 0x38D1B717 = Finite f_0_0001"
    by (simp add: float_of_bits_def f_0_0001_def)
  have s1: "scan_step [7, 0x00, 0x00, 0x80, 0x3F] 5 1 = Some (FloatField 1 0x3F800000, 5)"
    using float_candidate [OF a, of "[7, 0x00, 0x00, 0x80, 0x3F]"] r1 by simp
  have s2: "scan_step [7, 0, 0, 0, 0] 5 1 = Some (ByteBoolField 1 0, 2)"
    using float_candidate [OF a, of "[7, 0, 0, 0, 0]"] r2 by simp
  have s3: "scan_step [7, 0x17, 0xB7, 0xD1, 0x38] 5 1 = Some (FloatField 1 0x38D1B717, 5)"
    using float_candidate [OF a, of "[7, 0x17, 0xB7, 0xD1, 0x38]", THEN conjunct1, THEN mp, OF r3]
    unfolding Let_def v3 f3
    by (simp add: f_0_0001_def f_1e10_def f_100000_def)
  from s1 s2 s3 show ?thesis by simp
qed

subsection \<open>The fixed-size string candidate on a padded region\<close>

lemma printable_nonzero: "IsPrintable c \<Longrightarrow> c \<noteq> 0"
  by (auto simp: IsPrintable_def)

lemma region_Cons:
  assumes "region data pos (Suc n) = c # r" "0 \<le> pos"
  shows "data ! nat pos = c" "region data (pos + 1) n = r"
proof -
  from assms(1) obtain d' where d: "drop (nat pos) data = c # d'" "take n d' = r"
    by (cases "drop (nat pos) data") (auto simp: region_def)
  from d(1) show "data ! nat pos = c" by (rule nth_via_drop)
  have "drop (Suc (nat pos)) data = d'"
    using d(1) by (metis drop_Suc list.sel(3) tl_drop)
  moreover have "nat (pos + 1) = Suc (nat pos)" using assms(2) by simp
  ultimately show "region data (pos + 1) n = r" using d(2) by (simp add: region_def)
qed

lemma str_run_region:
  "0 \<le> pos \<Longrightarrow> pos + int (length r) \<le> size' \<Longrightarrow> region data pos (length r) = r \<Longrightarrow>
   list_ex (\<lambda>c. \<not> IsPrintable c) r \<Longrightarrow> length s + length (takeWhile IsPrintable r) < 64 \<Longrightarrow>
   str_run data size' pos s =
     Some (pos + int (length (takeWhile IsPrintable r)), s @ takeWhile IsPrintable r)"
proof (induction r arbitrary: pos s)
  case Nil
  then show ?case by simp
next
  case (Cons c r)
  from Cons.prems(3) have "region data pos (Suc (length r)) = c # r" by simp
  from region_Cons [OF this Cons.prems(1)]
  have c: "data ! nat pos = c" and r: "region data (pos + 1) (length r) = r" by auto
  from Cons.prems have rd: "rd data size' pos = Some c" using c by (simp add: rd_in)
  from Cons.prems have lt: "pos < size'" by simp
  show ?case
  proof (cases "IsPrintable c")
    case True
    with Cons.prems have ex: "list_ex (\<lambda>c. \<not> IsPrintable c) r" by simp
    from True Cons.prems have len: "length (s @ [c]) + length (takeWhile IsPrintable r) < 64"
      by simp
    from Cons.prems have b: "0 \<le> pos + 1" "pos + 1 + int (length r) \<le> size'" by simp_all
    note ih = Cons.IH [OF b r ex len]
    have "str_run data size' pos s = str_run data size' (pos + 1) (s @ [c])"
      using True rd lt len printable_nonzero [OF True] by (subst str_run.simps) simp
    with ih True show ?thesis by simp
  next
    case False
    then have "str_run data size' pos s = Some (pos, s)"
      using rd lt by (subst str_run.simps) simp
    with False show ?thesis by simp
  qed
qed

lemma count_region_region:
  "0 \<le> i \<Longrightarrow> i + int (length r) = sz \<Longrightarrow> sz \<le> maxLen \<Longrightarrow> region d i (length r) = r \<Longrightarrow>
   list_all (\<lambda>c. IsPrintable c \<or> c = 0) r \<Longrightarrow>
   count_region d maxLen sz i printable nulls =
     Some (True, printable + int (length (filter IsPrintable r)),
           nulls + int (length (filter (\<lambda>c. \<not> IsPrintable c) r)))"
proof (induction r arbitrary: i printable nulls)
  case Nil
  then show ?case by (subst count_region.simps) simp
next
  case (Cons c r)
  from Cons.prems(4) have "region d i (Suc (length r)) = c # r" by simp
  from region_Cons [OF this Cons.prems(1)]
  have c: "d ! nat i = c" and r: "region d (i + 1) (length r) = r" by auto
  from Cons.prems have lt: "i < sz" by auto
  with Cons.prems have rd: "rd d maxLen i = Some c" using c by (simp add: rd_in)
  from Cons.prems have b: "0 \<le> i + 1" "i + 1 + int (length r) = sz" by auto
  from Cons.prems have la: "list_all (\<lambda>c. IsPrintable c \<or> c = 0) r" by simp
  note ih = Cons.IH [OF b Cons.prems(3) r la]
  show ?case
  proof (cases "IsPrintable c")
    case True
    then show ?thesis
      using rd lt ih [of "printable + 1" nulls] by (subst count_region.simps) simp
  next
    case False
    with Cons.prems have "c = 0" by simp
    with False show ?thesis
      using rd lt ih [of printable "nulls + 1"] by (subst count_region.simps) simp
  qed
qed

lemma fixed_text_region:
  "0 \<le> pos \<Longrightarrow> 0 \<le> i \<Longrightarrow> i + int (length r) = n \<Longrightarrow> pos + n \<le> size' \<Longrightarrow>
   region data (pos + i) (length r) = r \<Longrightarrow>
   fixed_text data size' pos n i s = Some (s @ takeWhile (\<lambda>c. c \<noteq> 0) r)"
proof (induction r arbitrary: i s)
  case Nil
  then show ?case by (subst fixed_text.simps) simp
next
  case (Cons c r)
  from Cons.prems have p: "0 \<le> pos + i" by simp
  from Cons.prems(5) have "region data (pos + i) (Suc (length r)) = c # r" by simp
  from region_Cons [OF this p]
  have c: "data ! nat (pos + i) = c" and r: "region data (pos + (i + 1)) (length r) = r"
    by (auto simp: add.assoc)
  from Cons.prems have lt: "i < n" by auto
  with Cons.prems have rd: "rd data size' (pos + i) = Some c" using c by (simp add: rd_in)
  from Cons.prems have b: "0 \<le> i + 1" "i + 1 + int (length r) = n" by auto
  note ih = Cons.IH [OF Cons.prems(1) b Cons.prems(4) r]
  show ?case
  proof (cases "c = 0")
    case True
    then show ?thesis using rd lt by (subst fixed_text.simps) simp
  next
    case False
    then show ?thesis using rd lt ih [of "s @ [c]"] by (subst fixed_text.simps) simp
  qed
qed


lemma takeWhile_stops:
  "list_ex (\<lambda>c. \<not> P c) xs \<Longrightarrow>
   length (takeWhile P xs) < length xs \<and> \<not> P (xs ! length (takeWhile P xs))"
  by (induction xs) auto

lemma padded_counts:
  assumes "list_all (\<lambda>c. IsPrintable c \<or> c = 0) r"
  shows "int (length (filter IsPrintable r)) + int (length (filter (\<lambda>c. \<not> IsPrintable c) r))
           = int (length r)"
  using sum_length_filter_compl [of IsPrintable r] by simp

lemma filter_nonempty_nth: "i < length xs \<Longrightarrow> P (xs ! i) \<Longrightarrow> 0 < length (filter P xs)"
  by (metis filter_empty_conv length_greater_0_conv nth_mem)

text \<open>
  C4, as the code has it.  Let the 16 bytes at the current offset be a printable,
  null-padded region (at least 16 bytes remain).  The step commits the leading printable
  run as a variable string when that run has at least \<open>PKT_DBG_MIN_STR_LEN\<close> characters;
  otherwise it commits a fixed string of 13 bytes when at least \<open>PKT_DBG_MIN_STR_LEN\<close> of
  the first 13 bytes are printable; otherwise it commits a fixed string of exactly 16
  bytes.  So the region is one fixed string field of 16 bytes exactly when its leading
  printable run is shorter than \<open>PKT_DBG_MIN_STR_LEN\<close> and fewer than
  \<open>PKT_DBG_MIN_STR_LEN\<close> of its first 13 bytes are printable.
\<close>

theorem fixed_string_16:
  assumes "0 \<le> pos" "pos + 16 \<le> size'"
    and "length (region data pos 16) = 16" "padded (region data pos 16)"
  shows "let r = region data pos 16; run = takeWhile IsPrintable r in
     scan_step data size' pos =
       Some (if length run \<ge> PKT_DBG_MIN_STR_LEN
             then (VarString pos (length run + 1) run, pos + int (length run) + 1)
             else if length (filter IsPrintable (take 13 r)) \<ge> PKT_DBG_MIN_STR_LEN
             then (FixedString pos 13 (takeWhile (\<lambda>c. c \<noteq> 0) (take 13 r)), pos + 13)
             else (FixedString pos 16 (takeWhile (\<lambda>c. c \<noteq> 0) r), pos + 16))
     \<and> ((\<exists>s. scan_step data size' pos = Some (FixedString pos 16 s, pos + 16))
          \<longleftrightarrow> length run < PKT_DBG_MIN_STR_LEN
               \<and> length (filter IsPrintable (take 13 r)) < PKT_DBG_MIN_STR_LEN)"
proof -
  define r where "r = region data pos 16"
  define run where "run = takeWhile IsPrintable r"
  define k where "k = length run"
  define d where "d = drop (nat pos) data"
  define r13 where "r13 = take 13 r"
  define maxLen where "maxLen = size' - pos"
  have len: "length r = 16" using assms(3) by (simp add: r_def)
  have reg: "region data pos (length r) = r" using len by (simp add: r_def)
  have all: "list_all (\<lambda>c. IsPrintable c \<or> c = 0) r"
    and p16: "3 \<le> length (filter IsPrintable r)"
    and ex0: "list_ex (\<lambda>c. c = 0) r"
    using assms(4) by (simp_all add: padded_def r_def PKT_DBG_MIN_STR_LEN_def)
  from ex0 have ex: "list_ex (\<lambda>c. \<not> IsPrintable c) r"
    by (auto simp: list_ex_iff dest: printable_nonzero)
  from takeWhile_stops [OF ex] have k16: "k < 16" and nk: "\<not> IsPrintable (r ! k)"
    by (simp_all add: k_def run_def len)
  from all k16 len have rk: "r ! k = 0"
    using nk by (auto simp: list_all_length)
  have dk: "data ! nat (pos + int k) = 0"
    using region_nth [OF _ len assms(1) k16, of data] rk by (simp add: r_def)
  have d0: "data ! nat pos = r ! 0"
    using region_nth [OF _ len assms(1), of data 0] by (simp add: r_def)
  have k0: "\<not> IsPrintable (r ! 0) \<Longrightarrow> k = 0"
    using len by (cases r) (auto simp: k_def run_def)
  have sr: "str_run data size' pos [] = Some (pos + int k, run)"
    using str_run_region [OF assms(1) _ reg ex, of size' "[]"] assms(2) k16 len
    by (simp add: k_def run_def)
  have rd0: "rd data size' pos = Some (r ! 0)"
    using assms d0 by (simp add: rd_in)
  have rdk: "rd data size' (pos + int k) = Some 0"
    using assms k16 dk by (simp add: rd_in)
  have pk: "pos + int k < size'" using assms(2) k16 by simp
  have tv: "try_var_string data size' pos =
      (if 3 \<le> k then Some (Some (VarString pos (k + 1) run, pos + int k + 1)) else Some None)"
  proof (cases "IsPrintable (r ! 0)")
    case True
    have "length run = k" by (simp add: k_def)
    then show ?thesis
      using True rd0 sr rdk pk
      by (simp add: try_var_string_def PKT_DBG_MIN_STR_LEN_def)
  next
    case False
    with k0 rd0 show ?thesis by (simp add: try_var_string_def)
  qed
  have l13: "length r13 = 13" using len by (simp add: r13_def)
  have reg13: "region data pos 13 = r13"
    by (simp add: r13_def r_def region_def min_def)
  have dreg13: "region d 0 (length r13) = r13"
    using reg13 l13 by (simp add: region_def d_def)
  have dreg16: "region d 0 (length r) = r"
    using len by (simp add: region_def d_def r_def)
  have all13: "list_all (\<lambda>c. IsPrintable c \<or> c = 0) r13"
    using all by (auto simp: r13_def list_all_iff dest: in_set_takeD)
  have m16: "16 \<le> maxLen" using assms(2) by (simp add: maxLen_def)
  have c13: "count_region d maxLen 13 0 0 0 =
      Some (True, int (length (filter IsPrintable r13)),
            int (length (filter (\<lambda>c. \<not> IsPrintable c) r13)))"
    using count_region_region [OF _ _ _ dreg13 all13, of 13 maxLen 0 0] l13 m16 by simp
  have c16: "count_region d maxLen 16 0 0 0 =
      Some (True, int (length (filter IsPrintable r)),
            int (length (filter (\<lambda>c. \<not> IsPrintable c) r)))"
    using count_region_region [OF _ _ _ dreg16 all, of 16 maxLen 0 0] len m16 by simp
  have s13: "int (length (filter IsPrintable r13))
             + int (length (filter (\<lambda>c. \<not> IsPrintable c) r13)) = 13"
    using padded_counts [OF all13] l13 by simp
  have s16: "int (length (filter IsPrintable r))
             + int (length (filter (\<lambda>c. \<not> IsPrintable c) r)) = 16"
    using padded_counts [OF all] len by simp
  have n16: "0 < length (filter (\<lambda>c. \<not> IsPrintable c) r)"
    using filter_nonempty_nth [of k r "\<lambda>c. \<not> IsPrintable c"] k16 len nk by simp
  have n13: "k < 3 \<Longrightarrow> 0 < length (filter (\<lambda>c. \<not> IsPrintable c) r13)"
  proof -
    assume "k < 3"
    then have "r13 ! k = r ! k" "k < length r13" using l13 by (simp_all add: r13_def)
    with nk show ?thesis
      using filter_nonempty_nth [of k r13 "\<lambda>c. \<not> IsPrintable c"] by simp
  qed
  have det: "k < 3 \<Longrightarrow> DetectFixedString d maxLen =
      Some (if 3 \<le> length (filter IsPrintable r13) then 13 else 16)"
    using c13 c16 s13 s16 n13 n16 p16 m16
    by (simp add: DetectFixedString_def sizes_def PKT_DBG_MIN_STR_LEN_def)
  have ft13: "fixed_text data size' pos 13 0 [] = Some (takeWhile (\<lambda>c. c \<noteq> 0) r13)"
    using fixed_text_region [OF assms(1), of 0 r13 13 size' data "[]"] assms(2) reg13 l13
    by simp
  have ft16: "fixed_text data size' pos 16 0 [] = Some (takeWhile (\<lambda>c. c \<noteq> 0) r)"
    using fixed_text_region [OF assms(1), of 0 r 16 size' data "[]"] assms(2) reg len
    by simp
  have tf: "k < 3 \<Longrightarrow> try_fixed_string data size' pos =
      Some (Some (if 3 \<le> length (filter IsPrintable r13)
                  then (FixedString pos 13 (takeWhile (\<lambda>c. c \<noteq> 0) r13), pos + 13)
                  else (FixedString pos 16 (takeWhile (\<lambda>c. c \<noteq> 0) r), pos + 16)))"
    using det ft13 ft16
    by (simp add: try_fixed_string_def d_def [symmetric] maxLen_def [symmetric])
  have eq: "scan_step data size' pos =
       Some (if 3 \<le> k
             then (VarString pos (k + 1) run, pos + int k + 1)
             else if 3 \<le> length (filter IsPrintable r13)
             then (FixedString pos 13 (takeWhile (\<lambda>c. c \<noteq> 0) r13), pos + 13)
             else (FixedString pos 16 (takeWhile (\<lambda>c. c \<noteq> 0) r), pos + 16))"
  proof (cases "3 \<le> k")
    case True
    with tv show ?thesis by (simp add: scan_step_def)
  next
    case False
    then have "k < 3" by simp
    from tf [OF this] tv False show ?thesis by (simp add: scan_step_def)
  qed
  have iff: "(\<exists>s. scan_step data size' pos = Some (FixedString pos 16 s, pos + 16))
          \<longleftrightarrow> k < 3 \<and> length (filter IsPrintable r13) < 3"
    unfolding eq by auto
  from eq iff show ?thesis
    unfolding Let_def r_def [symmetric] run_def [symmetric] r13_def [symmetric]
      PKT_DBG_MIN_STR_LEN_def
    by (simp add: k_def)
qed

text \<open>The region \<open>ABC\<close> followed by 13 nulls is committed as the variable string \<open>ABC\<close>
  of 4 bytes; the region of 10 nulls, \<open>ABC\<close> and 3 nulls is committed as a fixed string
  of 13 bytes.\<close>

theorem fixed_string_16_counterexample:
  "padded (region [7, 0x41, 0x42, 0x43, 0, 0, 0, 0, 0, 0, 0, 0, 0, 0, 0, 0, 0] 1 16)
   \<and> length (region [7, 0x41, 0x42, 0x43, 0, 0, 0, 0, 0, 0, 0, 0, 0, 0, 0, 0, 0] 1 16) = 16
   \<and> scan_step [7, 0x41, 0x42, 0x43, 0, 0, 0, 0, 0, 0, 0, 0, 0, 0, 0, 0, 0] 17 1
       = Some (VarString 1 4 [0x41, 0x42, 0x43], 5)
   \<and> padded (region [7, 0, 0, 0, 0, 0, 0, 0, 0, 0, 0, 0x41, 0x42, 0x43, 0, 0, 0] 1 16)
   \<and> length (region [7, 0, 0, 0, 0, 0, 0, 0, 0, 0, 0, 0x41, 0x42, 0x43, 0, 0, 0] 1 16) = 16
   \<and> scan_step [7, 0, 0, 0, 0, 0, 0, 0, 0, 0, 0, 0x41, 0x42, 0x43, 0, 0, 0] 17 1
       = Some (FixedString 1 13 [], 14)"
  by (simp add: scan_eval region_def padded_def)

theorem fixed_string_16_witness:
  "padded (region [7, 0, 0, 0, 0, 0, 0, 0, 0, 0, 0, 0, 0, 0, 0x41, 0x42, 0x43] 1 16)
   \<and> scan_step [7, 0, 0, 0, 0, 0, 0, 0, 0, 0, 0, 0, 0, 0, 0x41, 0x42, 0x43] 17 1
       = Some (FixedString 1 16 [], 17)"
proof -
  let ?buf = "[7, 0, 0, 0, 0, 0, 0, 0, 0, 0, 0, 0, 0, 0, 0x41, 0x42, 0x43] :: byte list"
  have a: "(0::int) \<le> 1" "(1::int) + 16 \<le> 17" by simp_all
  have r: "region ?buf 1 16 = [0, 0, 0, 0, 0, 0, 0, 0, 0, 0, 0, 0, 0, 0x41, 0x42, 0x43]"
    by (simp add: region_def)
  have l: "length (region ?buf 1 16) = 16" unfolding r by simp
  have p: "padded (region ?buf 1 16)"
    unfolding r by (simp add: padded_def IsPrintable_def PKT_DBG_MIN_STR_LEN_def)
  from fixed_string_16 [OF a l p]
  have "scan_step ?buf 17 1 = Some (FixedString 1 16 [], 17)"
    unfolding Let_def r by (simp add: IsPrintable_def PKT_DBG_MIN_STR_LEN_def)
  with p show ?thesis by simp
qed

end
